theory Spec2Isabelle
  imports Main "HOL-Library.Word"
begin

unbundle bit_operations_syntax

section \<open>Machine integers and constants (globals.h)\<close>

text \<open>
  Fixed-width C integers are words. Values of type \<open>size_t\<close> (byte counts, buffer
  lengths) are natural numbers: every such quantity in the modelled code is bounded by
  an APDU length or by \<open>MAX_TX_SIZE\<close> plus one field and cannot wrap, with one
  exception that is written out in \<open>take_len\<close>.
  Pointer arguments of the parser, the formatter and the codec are modelled by the
  values they point to; byte buffers are lists.
\<close>

type_synonym uint8_t = "8 word"
type_synonym uint32_t = "32 word"
type_synonym uint64_t = "64 word"

definition MAX_TX_SIZE :: nat where
  "MAX_TX_SIZE = 8192"

definition ADDRESS_LEN :: nat where
  "ADDRESS_LEN = 20"

datatype tx_parse_state_t =
    TX_PARSE_STATE_INIT
  | TX_PARSE_STATE_VERSION
  | TX_PARSE_STATE_CHAIN_ID
  | TX_PARSE_STATE_SENDER
  | TX_PARSE_STATE_NONCE
  | TX_PARSE_STATE_GAS_PRICE
  | TX_PARSE_STATE_GAS_LIMIT
  | TX_PARSE_STATE_TX_TYPE
  | TX_PARSE_STATE_RECIPIENT
  | TX_PARSE_STATE_AMOUNT
  | TX_PARSE_STATE_DONE
  | TX_PARSE_STATE_ERROR

section \<open>Streaming transaction parser (tx_parser.c)\<close>

text \<open>The parsed record and the parser context of globals.h.\<close>

record tx_parsed_t =
  version :: uint8_t
  chain_id :: uint64_t
  sender :: "uint8_t list"
  nonce :: uint64_t
  gas_price :: uint64_t
  gas_limit :: uint64_t
  tx_type :: uint8_t
  recipient :: "uint8_t list"
  amount :: uint64_t
  fee_overflow :: bool
  fee_low :: uint64_t
  fee_high :: uint64_t

text \<open>
  \<open>tx_parser_compute_fee\<close>: the four 32x32 partial products of \<open>gas_price\<close> and
  \<open>gas_limit\<close> and the two carries, on 64-bit words as in the source.
\<close>

definition tx_parser_compute_fee :: "tx_parsed_t \<Rightarrow> tx_parsed_t" where
  "tx_parser_compute_fee p =
    (let a = gas_price p;
         b = gas_limit p;
         a_lo = (ucast a :: uint32_t);
         a_hi = (ucast (drop_bit 32 a) :: uint32_t);
         b_lo = (ucast b :: uint32_t);
         b_hi = (ucast (drop_bit 32 b) :: uint32_t);
         lo_lo = (ucast a_lo :: uint64_t) * ucast b_lo;
         lo_hi = (ucast a_lo :: uint64_t) * ucast b_hi;
         hi_lo = (ucast a_hi :: uint64_t) * ucast b_lo;
         hi_hi = (ucast a_hi :: uint64_t) * ucast b_hi;
         mid = lo_hi + hi_lo;
         carry_from_mid = (if mid < lo_hi then 1 else 0 :: uint64_t);
         result_lo = lo_lo + push_bit 32 mid;
         carry_to_hi = (if result_lo < lo_lo then 1 else 0 :: uint64_t);
         result_hi = hi_hi + drop_bit 32 mid + push_bit 32 carry_from_mid + carry_to_hi
     in p\<lparr>fee_low := result_lo, fee_high := result_hi, fee_overflow := (result_hi \<noteq> 0)\<rparr>)"


record tx_parser_ctx_t =
  state :: tx_parse_state_t
  field_offset :: uint8_t
  scratch :: "uint8_t list"
  parsed :: tx_parsed_t
  total_consumed :: nat

definition read_u64_le :: "uint8_t list \<Rightarrow> uint64_t" where
  "read_u64_le buf =
     (ucast (buf ! 0))
     OR push_bit 8 (ucast (buf ! 1))
     OR push_bit 16 (ucast (buf ! 2))
     OR push_bit 24 (ucast (buf ! 3))
     OR push_bit 32 (ucast (buf ! 4))
     OR push_bit 40 (ucast (buf ! 5))
     OR push_bit 48 (ucast (buf ! 6))
     OR push_bit 56 (ucast (buf ! 7))"

fun get_field_size :: "tx_parse_state_t \<Rightarrow> nat" where
  "get_field_size TX_PARSE_STATE_VERSION = 1"
| "get_field_size TX_PARSE_STATE_CHAIN_ID = 8"
| "get_field_size TX_PARSE_STATE_SENDER = 20"
| "get_field_size TX_PARSE_STATE_NONCE = 8"
| "get_field_size TX_PARSE_STATE_GAS_PRICE = 8"
| "get_field_size TX_PARSE_STATE_GAS_LIMIT = 8"
| "get_field_size TX_PARSE_STATE_TX_TYPE = 1"
| "get_field_size TX_PARSE_STATE_RECIPIENT = 20"
| "get_field_size TX_PARSE_STATE_AMOUNT = 8"
| "get_field_size _ = 0"

text \<open>
  \<open>process_complete_field\<close> returns the source's boolean together with the context as
  the call leaves it (the version and tx_type bytes are stored before they are checked).
  \<open>next_field\<close> is the state assignment of a case followed by the common
  \<open>field_offset = 0\<close> at the end of the function.
\<close>

definition next_field :: "tx_parser_ctx_t \<Rightarrow> tx_parse_state_t \<Rightarrow> tx_parser_ctx_t" where
  "next_field ctx st = ctx\<lparr>state := st, field_offset := 0\<rparr>"

definition process_complete_field :: "tx_parser_ctx_t \<Rightarrow> bool \<times> tx_parser_ctx_t" where
  "process_complete_field ctx =
    (let p = parsed ctx; s = scratch ctx in
     case state ctx of
       TX_PARSE_STATE_VERSION \<Rightarrow>
         (let ctx1 = ctx\<lparr>parsed := p\<lparr>version := s ! 0\<rparr>\<rparr> in
          if s ! 0 \<noteq> 1 then (False, ctx1)
          else (True, next_field ctx1 TX_PARSE_STATE_CHAIN_ID))
     | TX_PARSE_STATE_CHAIN_ID \<Rightarrow>
         (True, next_field (ctx\<lparr>parsed := p\<lparr>chain_id := read_u64_le s\<rparr>\<rparr>) TX_PARSE_STATE_SENDER)
     | TX_PARSE_STATE_SENDER \<Rightarrow>
         (True, next_field (ctx\<lparr>parsed := p\<lparr>sender := take ADDRESS_LEN s\<rparr>\<rparr>) TX_PARSE_STATE_NONCE)
     | TX_PARSE_STATE_NONCE \<Rightarrow>
         (True, next_field (ctx\<lparr>parsed := p\<lparr>nonce := read_u64_le s\<rparr>\<rparr>) TX_PARSE_STATE_GAS_PRICE)
     | TX_PARSE_STATE_GAS_PRICE \<Rightarrow>
         (True, next_field (ctx\<lparr>parsed := p\<lparr>gas_price := read_u64_le s\<rparr>\<rparr>) TX_PARSE_STATE_GAS_LIMIT)
     | TX_PARSE_STATE_GAS_LIMIT \<Rightarrow>
         (True, next_field (ctx\<lparr>parsed := p\<lparr>gas_limit := read_u64_le s\<rparr>\<rparr>) TX_PARSE_STATE_TX_TYPE)
     | TX_PARSE_STATE_TX_TYPE \<Rightarrow>
         (let ctx1 = ctx\<lparr>parsed := p\<lparr>tx_type := s ! 0\<rparr>\<rparr> in
          if s ! 0 = 0 then (True, next_field ctx1 TX_PARSE_STATE_RECIPIENT)
          else (False, ctx1))
     | TX_PARSE_STATE_RECIPIENT \<Rightarrow>
         (True, next_field (ctx\<lparr>parsed := p\<lparr>recipient := take ADDRESS_LEN s\<rparr>\<rparr>) TX_PARSE_STATE_AMOUNT)
     | TX_PARSE_STATE_AMOUNT \<Rightarrow>
         (True, next_field
            (ctx\<lparr>parsed := tx_parser_compute_fee (p\<lparr>amount := read_u64_le s\<rparr>)\<rparr>)
            TX_PARSE_STATE_DONE)
     | _ \<Rightarrow> (False, ctx))"

text \<open>
  The all-zero images of the two structures, and \<open>tx_parser_init\<close>, which clears the
  context and sets the state to \<open>TX_PARSE_STATE_VERSION\<close>.
\<close>

definition tx_parsed_zero :: tx_parsed_t where
  "tx_parsed_zero =
     \<lparr>version = 0, chain_id = 0, sender = replicate ADDRESS_LEN 0, nonce = 0, gas_price = 0,
      gas_limit = 0, tx_type = 0, recipient = replicate ADDRESS_LEN 0, amount = 0,
      fee_overflow = False, fee_low = 0, fee_high = 0\<rparr>"

definition tx_parser_ctx_zero :: tx_parser_ctx_t where
  "tx_parser_ctx_zero =
     \<lparr>state = TX_PARSE_STATE_INIT, field_offset = 0, scratch = replicate 32 0,
      parsed = tx_parsed_zero, total_consumed = 0\<rparr>"

definition tx_parser_init :: tx_parser_ctx_t where
  "tx_parser_init =
     tx_parser_ctx_zero\<lparr>state := TX_PARSE_STATE_VERSION, field_offset := 0, total_consumed := 0\<rparr>"

text \<open>The position of a state in the linear progression, counted from the end.\<close>

fun state_rank :: "tx_parse_state_t \<Rightarrow> nat" where
  "state_rank TX_PARSE_STATE_INIT = 11"
| "state_rank TX_PARSE_STATE_VERSION = 10"
| "state_rank TX_PARSE_STATE_CHAIN_ID = 9"
| "state_rank TX_PARSE_STATE_SENDER = 8"
| "state_rank TX_PARSE_STATE_NONCE = 7"
| "state_rank TX_PARSE_STATE_GAS_PRICE = 6"
| "state_rank TX_PARSE_STATE_GAS_LIMIT = 5"
| "state_rank TX_PARSE_STATE_TX_TYPE = 4"
| "state_rank TX_PARSE_STATE_RECIPIENT = 3"
| "state_rank TX_PARSE_STATE_AMOUNT = 2"
| "state_rank TX_PARSE_STATE_DONE = 1"
| "state_rank TX_PARSE_STATE_ERROR = 0"

lemma process_complete_field_rank:
  "fst (process_complete_field ctx) \<Longrightarrow>
     state_rank (state (snd (process_complete_field ctx))) < state_rank (state ctx)"
  by (cases "state ctx")
     (simp_all add: process_complete_field_def next_field_def Let_def split: if_splits)

text \<open>
  One pass of the \<open>while\<close> loop of \<open>tx_parser_consume\<close>. \<open>take_len\<close> is the local
  \<open>take = min(available, needed)\<close> with \<open>needed = field_size - field_offset\<close> computed in
  \<open>size_t\<close>: when \<open>field_offset\<close> exceeds \<open>field_size\<close> the subtraction wraps to a value
  above every possible \<open>available\<close>, so \<open>take = available\<close>. \<open>copy_field\<close> is the
  \<open>memcpy\<close> into the scratch buffer at \<open>field_offset\<close> and the three counter updates
  (\<open>field_offset\<close> is a \<open>uint8_t\<close> and wraps).
\<close>

definition take_len :: "tx_parser_ctx_t \<Rightarrow> nat \<Rightarrow> nat" where
  "take_len ctx available =
     (let field_size = get_field_size (state ctx); off = unat (field_offset ctx) in
      if off \<le> field_size then min available (field_size - off) else available)"

definition copy_field :: "tx_parser_ctx_t \<Rightarrow> uint8_t list \<Rightarrow> tx_parser_ctx_t" where
  "copy_field ctx bytes =
     (let off = unat (field_offset ctx); n = length bytes in
      ctx\<lparr>scratch := take off (scratch ctx) @ bytes @ drop (off + n) (scratch ctx),
          field_offset := field_offset ctx + of_nat n,
          total_consumed := total_consumed ctx + n\<rparr>)"

function tx_parser_consume_loop ::
  "tx_parser_ctx_t \<Rightarrow> uint8_t list \<Rightarrow> nat \<Rightarrow> tx_parser_ctx_t \<times> nat" where
  "tx_parser_consume_loop ctx data consumed =
     (if consumed < length data \<and> state ctx \<noteq> TX_PARSE_STATE_DONE
         \<and> state ctx \<noteq> TX_PARSE_STATE_ERROR
      then
        if MAX_TX_SIZE \<le> total_consumed ctx
        then (ctx\<lparr>state := TX_PARSE_STATE_ERROR\<rparr>, consumed)
        else if get_field_size (state ctx) = 0
        then (ctx\<lparr>state := TX_PARSE_STATE_ERROR\<rparr>, consumed)
        else if 32 < unat (field_offset ctx) + take_len ctx (length data - consumed)
        then (ctx\<lparr>state := TX_PARSE_STATE_ERROR\<rparr>, consumed)
        else
          let n = take_len ctx (length data - consumed);
              ctx1 = copy_field ctx (take n (drop consumed data))
          in if get_field_size (state ctx) \<le> unat (field_offset ctx1)
             then if fst (process_complete_field ctx1)
                  then tx_parser_consume_loop (snd (process_complete_field ctx1)) data (consumed + n)
                  else ((snd (process_complete_field ctx1))\<lparr>state := TX_PARSE_STATE_ERROR\<rparr>,
                        consumed + n)
             else tx_parser_consume_loop ctx1 data (consumed + n)
      else (ctx, consumed))"
  by pat_completeness auto

lemma copy_field_state [simp]: "state (copy_field ctx bs) = state ctx"
  by (simp add: copy_field_def Let_def)

lemma copy_field_offset [simp]:
  "field_offset (copy_field ctx bs) = field_offset ctx + of_nat (length bs)"
  by (simp add: copy_field_def Let_def)

lemma take_len_le: "take_len ctx a \<le> a"
  by (simp add: take_len_def Let_def)

lemma take_len_pos:
  assumes "0 < a" "unat (field_offset ctx) \<noteq> get_field_size (state ctx)"
  shows "0 < take_len ctx a"
  using assms by (auto simp add: take_len_def Let_def)

termination tx_parser_consume_loop
proof (relation "(\<lambda>(ctx, data, consumed). length data - consumed) <*mlex*>
                   measure (\<lambda>(ctx, data, consumed). state_rank (state ctx))", goal_cases)
  case 1
  show ?case by (simp add: wf_mlex)
next
  case (2 ctx data consumed n ctx1)
  have "state_rank (state (snd (process_complete_field ctx1))) < state_rank (state ctx1)"
    using 2 by (intro process_complete_field_rank) simp
  moreover have "state ctx1 = state ctx" using 2 by simp
  ultimately show ?case
    by (intro mlex_leq) (use 2 in simp_all)
next
  case (3 ctx data consumed n ctx1)
  have len: "length (take n (drop consumed data)) = n"
    using 3 take_len_le[of ctx "length data - consumed"] by simp
  have "0 < n"
  proof (rule ccontr)
    assume "\<not> 0 < n"
    then have n0: "n = 0" by simp
    then have "unat (field_offset ctx) = get_field_size (state ctx)"
      using 3 take_len_pos[of "length data - consumed" ctx] by auto
    then show False using 3 n0 by simp
  qed
  moreover have "consumed < length data" using 3 by simp
  ultimately have "length data - (consumed + n) < length data - consumed" by linarith
  then show ?case
    by (intro mlex_less) simp
qed

text \<open>
  \<open>tx_parser_consume\<close> returns the context as the call leaves it and the number of bytes
  consumed. \<open>data\<close> is the whole chunk, \<open>length data\<close> is \<open>data_len\<close>.
\<close>

definition tx_parser_consume ::
  "tx_parser_ctx_t \<Rightarrow> uint8_t list \<Rightarrow> tx_parser_ctx_t \<times> nat" where
  "tx_parser_consume ctx data =
     (if state ctx = TX_PARSE_STATE_DONE \<or> state ctx = TX_PARSE_STATE_ERROR then (ctx, 0)
      else tx_parser_consume_loop ctx data 0)"

definition tx_parser_is_done :: "tx_parser_ctx_t \<Rightarrow> bool" where
  "tx_parser_is_done ctx \<longleftrightarrow> state ctx = TX_PARSE_STATE_DONE"

definition tx_parser_has_error :: "tx_parser_ctx_t \<Rightarrow> bool" where
  "tx_parser_has_error ctx \<longleftrightarrow> state ctx = TX_PARSE_STATE_ERROR"

definition tx_parser_get_parsed :: "tx_parser_ctx_t \<Rightarrow> tx_parsed_t" where
  "tx_parser_get_parsed ctx = parsed ctx"

text \<open>
  A caller that feeds a transaction chunk after chunk, as the streaming tests and the
  sign handler do: each chunk is one call of \<open>tx_parser_consume\<close> on the context the
  previous call left.
\<close>

definition consume_chunks :: "tx_parser_ctx_t \<Rightarrow> uint8_t list list \<Rightarrow> tx_parser_ctx_t" where
  "consume_chunks ctx chunks = foldl (\<lambda>c chunk. fst (tx_parser_consume c chunk)) ctx chunks"

text \<open>The number a byte sequence denotes when read little-endian.\<close>

fun le_nat :: "uint8_t list \<Rightarrow> nat" where
  "le_nat [] = 0"
| "le_nat (b # bs) = unat b + 256 * le_nat bs"

text \<open>
  The transfer of scenario S1 on the wire: version 1, chain id 1, sender twenty bytes
  0x11, nonce 42, gas price 1000, gas limit 21000, type 0, recipient twenty bytes 0x22,
  amount 1000000.
\<close>

definition transfer_S1 :: "uint8_t list" where
  "transfer_S1 =
     [1] @ [1, 0, 0, 0, 0, 0, 0, 0] @ replicate 20 0x11 @ [42, 0, 0, 0, 0, 0, 0, 0]
     @ [0xE8, 0x03, 0, 0, 0, 0, 0, 0] @ [0x08, 0x52, 0, 0, 0, 0, 0, 0] @ [0]
     @ replicate 20 0x22 @ [0x40, 0x42, 0x0F, 0, 0, 0, 0, 0]"

text \<open>The same transfer cut into three chunks that straddle field boundaries.\<close>

definition transfer_S1_chunks :: "uint8_t list list" where
  "transfer_S1_chunks = [take 3 transfer_S1, take 40 (drop 3 transfer_S1), drop 43 transfer_S1]"

section \<open>Fee arithmetic: the 128-bit product\<close>

lemma add_mod_carry:
  fixes a b K :: nat
  assumes "a < K" "b < K"
  shows "a + b = (if (a + b) mod K < a then 1 else 0) * K + (a + b) mod K"
proof (cases "a + b < K")
  case True
  then show ?thesis by simp
next
  case False
  then have ge: "K \<le> a + b" by simp
  have "(a + b) mod K = (a + b - K) mod K" using ge by (rule le_mod_geq)
  also have "\<dots> = a + b - K" using assms by (intro mod_less) linarith
  finally have eq: "(a + b) mod K = a + b - K" .
  have "a + b - K < a" using assms ge by linarith
  then show ?thesis using ge by (simp add: eq)
qed

lemma digit_pair_less:
  fixes h l K :: nat
  assumes "h < K" "l < K"
  shows "h * K + l < K * K"
proof -
  have "h * K + l < h * K + K" using assms by simp
  also have "\<dots> = (h + 1) * K" by simp
  also have "\<dots> \<le> K * K" using assms by (intro mult_le_mono) simp_all
  finally show ?thesis .
qed

lemma mul128_nat:
  fixes al ah bl bh K :: nat
  assumes al: "al < K" and ah: "ah < K" and bl: "bl < K" and bh: "bh < K" and K1: "1 < K"
  defines "m \<equiv> (al * bh + ah * bl) mod (K * K)"
  defines "c1 \<equiv> (if m < al * bh then 1 else 0 :: nat)"
  defines "rl \<equiv> (al * bl + (m * K) mod (K * K)) mod (K * K)"
  defines "c2 \<equiv> (if rl < al * bl then 1 else 0 :: nat)"
  defines "rh \<equiv> (ah * bh + m div K + (c1 * K) mod (K * K) + c2) mod (K * K)"
  shows "rh * (K * K) + rl = (ah * K + al) * (bh * K + bl)"
proof -
  define x y z w where "x = al * bl" and "y = al * bh" and "z = ah * bl" and "w = ah * bh"
  have xb: "x < K * K" unfolding x_def using al bl by (intro mult_strict_mono) simp_all
  have yb: "y < K * K" unfolding y_def using al bh by (intro mult_strict_mono) simp_all
  have zb: "z < K * K" unfolding z_def using ah bl by (intro mult_strict_mono) simp_all
  define ml mh where "ml = m mod K" and "mh = m div K"
  have m_split: "m = mh * K + ml" by (simp add: ml_def mh_def)
  have M: "y + z = c1 * (K * K) + m"
    unfolding c1_def m_def y_def[symmetric] z_def[symmetric]
    using add_mod_carry[OF yb zb] .
  have sh: "(m * K) mod (K * K) = ml * K"
    unfolding ml_def by (simp add: mult_mod_left)
  have mlK: "ml * K < K * K"
    unfolding ml_def using K1 by simp
  have L: "x + ml * K = c2 * (K * K) + rl"
    unfolding c2_def rl_def sh x_def[symmetric]
    using add_mod_carry[OF xb mlK] .
  have c1le: "c1 \<le> 1" by (simp add: c1_def)
  have c1sh: "(c1 * K) mod (K * K) = c1 * K"
  proof -
    have "c1 * K \<le> K" using c1le by simp
    also have "K < K * K" using K1 by simp
    finally show ?thesis by simp
  qed
  define T where "T = w + mh + c1 * K + c2"
  have prod: "T * (K * K) + rl = (ah * K + al) * (bh * K + bl)"
  proof -
    have "T * (K * K) + rl = w * (K * K) + mh * (K * K) + c1 * K * (K * K) + (c2 * (K * K) + rl)"
      by (simp add: T_def algebra_simps)
    also have "\<dots> = w * (K * K) + mh * (K * K) + c1 * K * (K * K) + (x + ml * K)"
      by (simp only: L)
    also have "\<dots> = w * (K * K) + (c1 * (K * K) + (mh * K + ml)) * K + x"
      by (simp add: algebra_simps)
    also have "\<dots> = w * (K * K) + (y + z) * K + x"
      by (simp only: M m_split)
    also have "\<dots> = (ah * K + al) * (bh * K + bl)"
      by (simp add: x_def y_def z_def w_def algebra_simps)
    finally show ?thesis .
  qed
  have "(ah * K + al) * (bh * K + bl) < (K * K) * (K * K)"
    using digit_pair_less[OF ah al] digit_pair_less[OF bh bl] K1
    by (intro mult_strict_mono) simp_all
  then have "T * (K * K) < (K * K) * (K * K)" using prod by linarith
  then have Tb: "T < K * K" by simp
  have "rh = T"
    unfolding rh_def c1sh T_def[symmetric] w_def[symmetric] mh_def[symmetric]
    using Tb by (simp add: T_def)
  then show ?thesis using prod by simp
qed


lemma unat_lo32: "unat (ucast (a::uint64_t) :: uint32_t) = unat a mod 2^32"
  by (simp add: unsigned_ucast_eq take_bit_eq_mod)

lemma unat_hi32: "unat (ucast (drop_bit 32 (a::uint64_t)) :: uint32_t) = unat a div 2^32"
proof -
  have "unat a < 2^64" using unsigned_less[of a, where 'a=nat] by simp
  then have small: "unat a div 2^32 < 2^32" by simp
  have "unat (ucast (drop_bit 32 a) :: uint32_t) = take_bit 32 (unat (drop_bit 32 a))"
    by (simp only: unsigned_ucast_eq len_bit0 len_num1 mult_numeral_1_right numeral_times_numeral)
      simp
  also have "\<dots> = take_bit 32 (drop_bit 32 (unat a))"
    by (simp only: unat_drop_bit_eq)
  also have "\<dots> = take_bit 32 (unat a div 2^32)"
    by (simp only: drop_bit_eq_div)
  also have "\<dots> = unat a div 2^32"
    using small by (simp only: take_bit_nat_eq_self)
  finally show ?thesis .
qed

lemma unat_widen: "unat (ucast (x::uint32_t) :: uint64_t) = unat x"
proof -
  have "unat x < 2^32" using unsigned_less[of x, where 'a=nat] by simp
  then show ?thesis
    by (simp add: unsigned_ucast_eq take_bit_eq_mod)
qed

lemma unat_mul32:
  "unat ((ucast (x::uint32_t) :: uint64_t) * ucast (y::uint32_t)) = unat x * unat y"
proof -
  have "unat x < 2^32" "unat y < 2^32"
    using unsigned_less[of x, where 'a=nat] unsigned_less[of y, where 'a=nat] by simp_all
  then have "unat x * unat y < 2^32 * 2^32" by (intro mult_strict_mono) simp_all
  then show ?thesis by (simp add: unat_word_ariths unat_widen)
qed

lemma unat_shl32: "unat (push_bit 32 (m::uint64_t)) = (unat m * 2^32) mod 2^64"
proof -
  have "unat (push_bit 32 m) = take_bit 64 (push_bit 32 (unat m))"
    by (simp only: unsigned_push_bit_eq) simp
  then show ?thesis by (simp only: take_bit_eq_mod push_bit_eq_mult)
qed

lemma fee_nat:
  "unat (fee_high (tx_parser_compute_fee p)) * 2^64 + unat (fee_low (tx_parser_compute_fee p))
     = unat (gas_price p) * unat (gas_limit p)"
proof -
  define K :: nat where "K = 2^32"
  define al ah bl bh where "al = unat (gas_price p) mod K" and "ah = unat (gas_price p) div K"
    and "bl = unat (gas_limit p) mod K" and "bh = unat (gas_limit p) div K"
  have K1: "1 < K" by (simp add: K_def)
  have KK: "K * K = 2^64" by (simp add: K_def)
  have lo: "al < K" "bl < K" using K1 by (simp_all add: al_def bl_def)
  have "unat (gas_price p) < K * K" "unat (gas_limit p) < K * K"
    unfolding KK using unsigned_less[of "gas_price p", where 'a=nat]
      unsigned_less[of "gas_limit p", where 'a=nat] by simp_all
  then have hi: "ah < K" "bh < K"
    unfolding ah_def bh_def by (simp_all add: less_mult_imp_div_less)
  have A: "unat (gas_price p) = ah * K + al" and B: "unat (gas_limit p) = bh * K + bl"
    by (simp_all add: al_def ah_def bl_def bh_def)
  note nat_eq = mul128_nat[OF lo(1) hi(1) lo(2) hi(2) K1]
  define a_lo a_hi b_lo b_hi :: uint32_t
    where "a_lo = ucast (gas_price p)" and "a_hi = ucast (drop_bit 32 (gas_price p))"
      and "b_lo = ucast (gas_limit p)" and "b_hi = ucast (drop_bit 32 (gas_limit p))"
  have halves: "unat a_lo = al" "unat a_hi = ah" "unat b_lo = bl" "unat b_hi = bh"
    unfolding a_lo_def a_hi_def b_lo_def b_hi_def al_def ah_def bl_def bh_def K_def
    by (rule unat_lo32 unat_hi32)+
  define lo_lo lo_hi hi_lo hi_hi :: uint64_t
    where "lo_lo = ucast a_lo * ucast b_lo" and "lo_hi = ucast a_lo * ucast b_hi"
      and "hi_lo = ucast a_hi * ucast b_lo" and "hi_hi = ucast a_hi * ucast b_hi"
  have prods: "unat lo_lo = al * bl" "unat lo_hi = al * bh" "unat hi_lo = ah * bl"
      "unat hi_hi = ah * bh"
    by (simp_all only: lo_lo_def lo_hi_def hi_lo_def hi_hi_def unat_mul32 halves)
  define mid where "mid = lo_hi + hi_lo"
  have mid: "unat mid = (al * bh + ah * bl) mod (K * K)"
    by (simp only: mid_def unat_word_ariths prods KK) simp
  define carry_from_mid :: uint64_t where "carry_from_mid = (if mid < lo_hi then 1 else 0)"
  have c1: "unat carry_from_mid = (if (al * bh + ah * bl) mod (K * K) < al * bh then 1 else 0)"
    by (simp add: carry_from_mid_def word_less_nat_alt mid prods)
  define result_lo where "result_lo = lo_lo + push_bit 32 mid"
  have rl: "unat result_lo = (al * bl + ((al * bh + ah * bl) mod (K * K) * K) mod (K * K)) mod (K * K)"
    by (simp only: result_lo_def unat_word_ariths unat_shl32 prods mid KK) (simp add: K_def)
  define carry_to_hi :: uint64_t where "carry_to_hi = (if result_lo < lo_lo then 1 else 0)"
  have c2: "unat carry_to_hi = (if (al * bl + ((al * bh + ah * bl) mod (K * K) * K) mod (K * K)) mod (K * K) < al * bl then 1 else 0)"
    by (simp add: carry_to_hi_def word_less_nat_alt rl prods)
  define result_hi where "result_hi = hi_hi + drop_bit 32 mid + push_bit 32 carry_from_mid + carry_to_hi"
  have "unat result_hi = (unat hi_hi + unat mid div K + unat carry_from_mid * K + unat carry_to_hi) mod (K * K)"
    by (simp only: result_hi_def unat_word_ariths unat_shl32 unat_drop_bit_eq KK)
       (simp add: K_def mod_simps drop_bit_eq_div)
  then have rh: "unat result_hi = (ah * bh + (al * bh + ah * bl) mod (K * K) div K
         + (if (al * bh + ah * bl) mod (K * K) < al * bh then 1 else 0) * K
         + (if (al * bl + ((al * bh + ah * bl) mod (K * K) * K) mod (K * K)) mod (K * K) < al * bl then 1 else 0))
        mod (K * K)"
    by (simp only: prods mid c1 c2)
  have inner: "((if c then 1 else 0) * K) mod (K * K) = (if c then 1 else 0 :: nat) * K" for c
    using K1 by simp
  have low: "fee_low (tx_parser_compute_fee p) = result_lo"
    by (simp add: tx_parser_compute_fee_def Let_def result_lo_def mid_def lo_lo_def lo_hi_def
        hi_lo_def a_lo_def a_hi_def b_lo_def b_hi_def)
  have high: "fee_high (tx_parser_compute_fee p) = result_hi"
    by (simp add: tx_parser_compute_fee_def Let_def result_hi_def carry_to_hi_def
        carry_from_mid_def result_lo_def mid_def lo_lo_def lo_hi_def hi_hi_def
        hi_lo_def a_lo_def a_hi_def b_lo_def b_hi_def)
  show ?thesis
    unfolding low high rl rh A B KK[symmetric] using nat_eq[unfolded inner] by simp
qed


text \<open>
  C4. For all 64-bit \<open>gas_price\<close> and \<open>gas_limit\<close>, \<open>tx_parser_compute_fee\<close> stores in
  \<open>(fee_high, fee_low)\<close> exactly the 128-bit product: \<open>fee_low\<close> is the product modulo
  \<open>2^64\<close>, \<open>fee_high\<close> is the product divided by \<open>2^64\<close>, and \<open>fee_overflow\<close> is set
  exactly when \<open>fee_high\<close> is non-zero.
\<close>

theorem tx_parser_compute_fee_exact:
  "unat (fee_high (tx_parser_compute_fee p)) * 2^64 + unat (fee_low (tx_parser_compute_fee p))
      = unat (gas_price p) * unat (gas_limit p)
   \<and> unat (fee_low (tx_parser_compute_fee p)) = (unat (gas_price p) * unat (gas_limit p)) mod 2^64
   \<and> unat (fee_high (tx_parser_compute_fee p)) = (unat (gas_price p) * unat (gas_limit p)) div 2^64
   \<and> fee_overflow (tx_parser_compute_fee p) = (fee_high (tx_parser_compute_fee p) \<noteq> 0)"
proof -
  let ?q = "tx_parser_compute_fee p"
  have prod: "unat (fee_high ?q) * 2^64 + unat (fee_low ?q) = unat (gas_price p) * unat (gas_limit p)"
    by (rule fee_nat)
  have lt: "unat (fee_low ?q) < 2^64"
    using unsigned_less[of "fee_low ?q", where 'a=nat] by simp
  have low: "unat (fee_low ?q) = (unat (gas_price p) * unat (gas_limit p)) mod 2^64"
    using lt by (simp add: prod[symmetric])
  have high: "unat (fee_high ?q) = (unat (gas_price p) * unat (gas_limit p)) div 2^64"
    using lt by (simp add: prod[symmetric])
  have flag: "fee_overflow ?q = (fee_high ?q \<noteq> 0)"
    by (simp add: tx_parser_compute_fee_def Let_def)
  show ?thesis using prod low high flag by blast
qed

section \<open>The parser loop: unfolding, invariants, chunking\<close>

declare tx_parser_consume_loop.simps [simp del]

definition loop_running :: "tx_parser_ctx_t \<Rightarrow> uint8_t list \<Rightarrow> nat \<Rightarrow> bool" where
  "loop_running ctx data consumed \<longleftrightarrow>
     consumed < length data \<and> state ctx \<noteq> TX_PARSE_STATE_DONE \<and> state ctx \<noteq> TX_PARSE_STATE_ERROR"

definition loop_guard_fails :: "tx_parser_ctx_t \<Rightarrow> nat \<Rightarrow> bool" where
  "loop_guard_fails ctx available \<longleftrightarrow>
     MAX_TX_SIZE \<le> total_consumed ctx \<or> get_field_size (state ctx) = 0
     \<or> 32 < unat (field_offset ctx) + take_len ctx available"

definition loop_copy :: "tx_parser_ctx_t \<Rightarrow> uint8_t list \<Rightarrow> tx_parser_ctx_t" where
  "loop_copy ctx rest = copy_field ctx (take (take_len ctx (length rest)) rest)"

definition field_complete :: "tx_parser_ctx_t \<Rightarrow> tx_parser_ctx_t \<Rightarrow> bool" where
  "field_complete ctx ctx1 \<longleftrightarrow> get_field_size (state ctx) \<le> unat (field_offset ctx1)"

lemma loop_copy_drop:
  "loop_copy ctx (drop c d) = copy_field ctx (take (take_len ctx (length d - c)) (drop c d))"
  by (simp add: loop_copy_def)

lemma loop_stop:
  "\<not> loop_running ctx d c \<Longrightarrow> tx_parser_consume_loop ctx d c = (ctx, c)"
  unfolding loop_running_def
  by (subst tx_parser_consume_loop.simps) (simp only: if_not_P if_False)

lemma loop_err:
  "loop_running ctx d c \<Longrightarrow> loop_guard_fails ctx (length d - c) \<Longrightarrow>
     tx_parser_consume_loop ctx d c = (ctx\<lparr>state := TX_PARSE_STATE_ERROR\<rparr>, c)"
  by (subst tx_parser_consume_loop.simps) (auto simp add: loop_running_def loop_guard_fails_def)

lemma loop_field_ok:
  "loop_running ctx d c \<Longrightarrow> \<not> loop_guard_fails ctx (length d - c) \<Longrightarrow>
   field_complete ctx (loop_copy ctx (drop c d)) \<Longrightarrow>
   fst (process_complete_field (loop_copy ctx (drop c d))) \<Longrightarrow>
     tx_parser_consume_loop ctx d c =
       tx_parser_consume_loop (snd (process_complete_field (loop_copy ctx (drop c d)))) d
         (c + take_len ctx (length d - c))"
  by (subst tx_parser_consume_loop.simps)
     (simp add: loop_running_def loop_guard_fails_def field_complete_def loop_copy_def Let_def)

lemma loop_field_bad:
  "loop_running ctx d c \<Longrightarrow> \<not> loop_guard_fails ctx (length d - c) \<Longrightarrow>
   field_complete ctx (loop_copy ctx (drop c d)) \<Longrightarrow>
   \<not> fst (process_complete_field (loop_copy ctx (drop c d))) \<Longrightarrow>
     tx_parser_consume_loop ctx d c =
       ((snd (process_complete_field (loop_copy ctx (drop c d))))\<lparr>state := TX_PARSE_STATE_ERROR\<rparr>,
         c + take_len ctx (length d - c))"
  by (subst tx_parser_consume_loop.simps)
     (simp add: loop_running_def loop_guard_fails_def field_complete_def loop_copy_def Let_def)

lemma loop_partial:
  "loop_running ctx d c \<Longrightarrow> \<not> loop_guard_fails ctx (length d - c) \<Longrightarrow>
   \<not> field_complete ctx (loop_copy ctx (drop c d)) \<Longrightarrow>
     tx_parser_consume_loop ctx d c =
       tx_parser_consume_loop (loop_copy ctx (drop c d)) d (c + take_len ctx (length d - c))"
  by (subst tx_parser_consume_loop.simps)
     (simp add: loop_running_def loop_guard_fails_def field_complete_def loop_copy_def Let_def)

lemma loop_cases_induct [consumes 0, case_names stop err field_ok field_bad partial]:
  assumes "\<And>ctx d c. \<not> loop_running ctx d c \<Longrightarrow> P ctx d c"
    and "\<And>ctx d c. loop_running ctx d c \<Longrightarrow> loop_guard_fails ctx (length d - c) \<Longrightarrow> P ctx d c"
    and "\<And>ctx d c. loop_running ctx d c \<Longrightarrow> \<not> loop_guard_fails ctx (length d - c) \<Longrightarrow>
           field_complete ctx (loop_copy ctx (drop c d)) \<Longrightarrow>
           fst (process_complete_field (loop_copy ctx (drop c d))) \<Longrightarrow>
           P (snd (process_complete_field (loop_copy ctx (drop c d)))) d (c + take_len ctx (length d - c)) \<Longrightarrow>
           P ctx d c"
    and "\<And>ctx d c. loop_running ctx d c \<Longrightarrow> \<not> loop_guard_fails ctx (length d - c) \<Longrightarrow>
           field_complete ctx (loop_copy ctx (drop c d)) \<Longrightarrow>
           \<not> fst (process_complete_field (loop_copy ctx (drop c d))) \<Longrightarrow> P ctx d c"
    and "\<And>ctx d c. loop_running ctx d c \<Longrightarrow> \<not> loop_guard_fails ctx (length d - c) \<Longrightarrow>
           \<not> field_complete ctx (loop_copy ctx (drop c d)) \<Longrightarrow>
           P (loop_copy ctx (drop c d)) d (c + take_len ctx (length d - c)) \<Longrightarrow>
           P ctx d c"
  shows "P ctx d c"
proof (induction ctx d c rule: tx_parser_consume_loop.induct)
  case (1 ctx data consumed)
  show ?case
  proof (cases "loop_running ctx data consumed")
    case False
    then show ?thesis by (rule assms(1))
  next
    case run: True
    show ?thesis
    proof (cases "loop_guard_fails ctx (length data - consumed)")
      case True
      with run show ?thesis by (rule assms(2))
    next
      case ok: False
      show ?thesis
      proof (cases "field_complete ctx (loop_copy ctx (drop consumed data))")
        case cmpl: True
        show ?thesis
        proof (cases "fst (process_complete_field (loop_copy ctx (drop consumed data)))")
          case True
          have "P (snd (process_complete_field (loop_copy ctx (drop consumed data)))) data
                  (consumed + take_len ctx (length data - consumed))"
            unfolding loop_copy_drop
            apply (rule "1.IH"(1)[OF _ _ _ _ refl refl])
            using run ok cmpl True
            by (simp_all add: loop_running_def loop_guard_fails_def field_complete_def loop_copy_def)
          with run ok cmpl True show ?thesis by (rule assms(3))
        next
          case False
          with run ok cmpl show ?thesis by (rule assms(4))
        qed
      next
        case part: False
        have "P (loop_copy ctx (drop consumed data)) data
                  (consumed + take_len ctx (length data - consumed))"
          unfolding loop_copy_drop
          apply (rule "1.IH"(2)[OF _ _ _ _ refl refl])
          using run ok part
          by (simp_all add: loop_running_def loop_guard_fails_def field_complete_def loop_copy_def)
        with run ok part show ?thesis by (rule assms(5))
      qed
    qed
  qed
qed


lemma loop_shift_gen:
  "drop c d = drop c' d' \<Longrightarrow>
     fst (tx_parser_consume_loop ctx d c) = fst (tx_parser_consume_loop ctx d' c')
     \<and> snd (tx_parser_consume_loop ctx d c) + c' = snd (tx_parser_consume_loop ctx d' c') + c"
proof (induction ctx d c arbitrary: d' c' rule: loop_cases_induct)
  case (stop ctx d c)
  have "length d - c = length d' - c'" using stop.prems by (metis length_drop)
  then have "\<not> loop_running ctx d' c'" using stop.hyps by (auto simp add: loop_running_def)
  then show ?case using stop.hyps by (simp add: loop_stop)
next
  case (err ctx d c)
  have len: "length d - c = length d' - c'" using err.prems by (metis length_drop)
  then have "loop_running ctx d' c'" using err.hyps by (auto simp add: loop_running_def)
  moreover have "loop_guard_fails ctx (length d' - c')" using err.hyps len by simp
  ultimately show ?case using err.hyps by (simp add: loop_err)
next
  case (field_ok ctx d c)
  have len: "length d - c = length d' - c'" using field_ok.prems by (metis length_drop)
  then have run: "loop_running ctx d' c'" using field_ok.hyps by (auto simp add: loop_running_def)
  have dr: "drop (c + take_len ctx (length d - c)) d = drop (c' + take_len ctx (length d' - c')) d'"
    using field_ok.prems len by (metis add.commute drop_drop)
  note IH = field_ok.IH[OF dr]
  have L: "tx_parser_consume_loop ctx d c =
       tx_parser_consume_loop (snd (process_complete_field (loop_copy ctx (drop c d)))) d
         (c + take_len ctx (length d - c))"
    using field_ok.hyps by (intro loop_field_ok)
  have R: "tx_parser_consume_loop ctx d' c' =
       tx_parser_consume_loop (snd (process_complete_field (loop_copy ctx (drop c d)))) d'
         (c' + take_len ctx (length d' - c'))"
    using field_ok.hyps run len field_ok.prems
    by (simp add: loop_field_ok)
  show ?case unfolding L R using IH len by simp
next
  case (field_bad ctx d c)
  have len: "length d - c = length d' - c'" using field_bad.prems by (metis length_drop)
  then have run: "loop_running ctx d' c'" using field_bad.hyps by (auto simp add: loop_running_def)
  show ?case using field_bad.hyps run len field_bad.prems
    by (simp add: loop_field_bad)
next
  case (partial ctx d c)
  have len: "length d - c = length d' - c'" using partial.prems by (metis length_drop)
  then have run: "loop_running ctx d' c'" using partial.hyps by (auto simp add: loop_running_def)
  have dr: "drop (c + take_len ctx (length d - c)) d = drop (c' + take_len ctx (length d' - c')) d'"
    using partial.prems len by (metis add.commute drop_drop)
  note IH = partial.IH[OF dr]
  have L: "tx_parser_consume_loop ctx d c =
       tx_parser_consume_loop (loop_copy ctx (drop c d)) d (c + take_len ctx (length d - c))"
    using partial.hyps by (intro loop_partial)
  have R: "tx_parser_consume_loop ctx d' c' =
       tx_parser_consume_loop (loop_copy ctx (drop c d)) d' (c' + take_len ctx (length d' - c'))"
    using partial.hyps run len partial.prems
    by (simp add: loop_partial)
  show ?case unfolding L R using IH len by simp
qed


definition run_rest :: "tx_parser_ctx_t \<Rightarrow> uint8_t list \<Rightarrow> tx_parser_ctx_t" where
  "run_rest ctx rest = fst (tx_parser_consume_loop ctx rest 0)"

definition parser_wf :: "tx_parser_ctx_t \<Rightarrow> bool" where
  "parser_wf ctx \<longleftrightarrow>
     length (scratch ctx) = 32 \<and>
     (get_field_size (state ctx) = 0 \<or> unat (field_offset ctx) < get_field_size (state ctx))"

lemma consume_fst: "fst (tx_parser_consume ctx data) = run_rest ctx data"
  by (auto simp add: tx_parser_consume_def run_rest_def loop_stop loop_running_def)

lemma loop_fst_drop: "fst (tx_parser_consume_loop ctx d c) = run_rest ctx (drop c d)"
  unfolding run_rest_def using loop_shift_gen[of c d 0 "drop c d" ctx] by simp

lemma running_0: "loop_running ctx rest 0 \<longleftrightarrow>
    rest \<noteq> [] \<and> state ctx \<noteq> TX_PARSE_STATE_DONE \<and> state ctx \<noteq> TX_PARSE_STATE_ERROR"
  by (simp add: loop_running_def)

lemma run_stop: "\<not> loop_running ctx rest 0 \<Longrightarrow> run_rest ctx rest = ctx"
  by (simp add: run_rest_def loop_stop)

lemma run_nil [simp]: "run_rest ctx [] = ctx"
  by (simp add: run_stop running_0)

lemma run_err:
  "loop_running ctx rest 0 \<Longrightarrow> loop_guard_fails ctx (length rest) \<Longrightarrow>
     run_rest ctx rest = ctx\<lparr>state := TX_PARSE_STATE_ERROR\<rparr>"
  by (simp add: run_rest_def loop_err)

lemma run_field_ok:
  "loop_running ctx rest 0 \<Longrightarrow> \<not> loop_guard_fails ctx (length rest) \<Longrightarrow>
   field_complete ctx (loop_copy ctx rest) \<Longrightarrow>
   fst (process_complete_field (loop_copy ctx rest)) \<Longrightarrow>
     run_rest ctx rest =
       run_rest (snd (process_complete_field (loop_copy ctx rest)))
         (drop (take_len ctx (length rest)) rest)"
  using loop_field_ok[of ctx rest 0]
  by (simp add: run_rest_def[of ctx] loop_fst_drop)

lemma run_field_bad:
  "loop_running ctx rest 0 \<Longrightarrow> \<not> loop_guard_fails ctx (length rest) \<Longrightarrow>
   field_complete ctx (loop_copy ctx rest) \<Longrightarrow>
   \<not> fst (process_complete_field (loop_copy ctx rest)) \<Longrightarrow>
     run_rest ctx rest =
       (snd (process_complete_field (loop_copy ctx rest)))\<lparr>state := TX_PARSE_STATE_ERROR\<rparr>"
  using loop_field_bad[of ctx rest 0]
  by (simp add: run_rest_def[of ctx])

lemma run_partial:
  "loop_running ctx rest 0 \<Longrightarrow> \<not> loop_guard_fails ctx (length rest) \<Longrightarrow>
   \<not> field_complete ctx (loop_copy ctx rest) \<Longrightarrow>
     run_rest ctx rest =
       run_rest (loop_copy ctx rest) (drop (take_len ctx (length rest)) rest)"
  using loop_partial[of ctx rest 0]
  by (simp add: run_rest_def[of ctx] loop_fst_drop)

lemma run_step_cong:
  assumes "loop_running ctx rest 0" "loop_running ctx' rest' 0"
    and "\<not> loop_guard_fails ctx (length rest)" "\<not> loop_guard_fails ctx' (length rest')"
    and "state ctx = state ctx'"
    and "loop_copy ctx rest = loop_copy ctx' rest'"
    and "drop (take_len ctx (length rest)) rest = drop (take_len ctx' (length rest')) rest'"
  shows "run_rest ctx rest = run_rest ctx' rest'"
proof (cases "field_complete ctx (loop_copy ctx rest)")
  case True
  then have c': "field_complete ctx' (loop_copy ctx' rest')"
    using assms(5,6) by (simp add: field_complete_def)
  show ?thesis
  proof (cases "fst (process_complete_field (loop_copy ctx rest))")
    case ok: True
    then show ?thesis
      using assms True c' by (simp add: run_field_ok)
  next
    case bad: False
    then show ?thesis
      using assms True c' by (simp add: run_field_bad)
  qed
next
  case False
  then have c': "\<not> field_complete ctx' (loop_copy ctx' rest')"
    using assms(5,6) by (simp add: field_complete_def)
  show ?thesis using assms False c' by (simp add: run_partial)
qed

lemma field_size_le: "get_field_size st \<le> 20"
  by (cases st) simp_all

lemma wf_take_len:
  "parser_wf ctx \<Longrightarrow> get_field_size (state ctx) \<noteq> 0 \<Longrightarrow>
     take_len ctx a = min a (get_field_size (state ctx) - unat (field_offset ctx))"
  by (auto simp add: parser_wf_def take_len_def Let_def)

lemma wf_guard:
  assumes "parser_wf ctx" "get_field_size (state ctx) \<noteq> 0"
  shows "loop_guard_fails ctx a \<longleftrightarrow> MAX_TX_SIZE \<le> total_consumed ctx"
proof -
  have "unat (field_offset ctx) + take_len ctx a \<le> get_field_size (state ctx)"
    using assms by (auto simp add: wf_take_len parser_wf_def)
  then have "unat (field_offset ctx) + take_len ctx a \<le> 32"
    using field_size_le[of "state ctx"] by linarith
  then show ?thesis using assms(2) by (auto simp add: loop_guard_fails_def)
qed

lemma copy_offset_unat:
  assumes "unat (field_offset ctx) + length bs \<le> 32"
  shows "unat (field_offset (copy_field ctx bs)) = unat (field_offset ctx) + length bs"
proof -
  have "unat (field_offset ctx + of_nat (length bs)) = (unat (field_offset ctx) + length bs mod 256) mod 256"
    by (simp add: unat_word_ariths unat_of_nat)
  then show ?thesis using assms by simp
qed

lemma copy_field_append:
  assumes "length (scratch ctx) = 32" "unat (field_offset ctx) + length xs + length zs \<le> 32"
  shows "copy_field (copy_field ctx xs) zs = copy_field ctx (xs @ zs)"
proof -
  have off: "unat (field_offset ctx + of_nat (length xs)) = unat (field_offset ctx) + length xs"
    using copy_offset_unat[of ctx xs] assms(2) by simp
  have "take (unat (field_offset ctx) + length xs)
          (take (unat (field_offset ctx)) (scratch ctx) @ xs
             @ drop (unat (field_offset ctx) + length xs) (scratch ctx))
        = take (unat (field_offset ctx)) (scratch ctx) @ xs"
    using assms by simp
  moreover have "drop (unat (field_offset ctx) + length xs + length zs)
          (take (unat (field_offset ctx)) (scratch ctx) @ xs
             @ drop (unat (field_offset ctx) + length xs) (scratch ctx))
        = drop (unat (field_offset ctx) + length xs + length zs) (scratch ctx)"
    using assms by (simp add: add.commute)
  ultimately show ?thesis
    by (simp add: copy_field_def Let_def off add.assoc)
qed


lemma copy_scratch_len:
  "length (scratch ctx) = 32 \<Longrightarrow> unat (field_offset ctx) + length bs \<le> 32 \<Longrightarrow>
     length (scratch (copy_field ctx bs)) = 32"
  by (simp add: copy_field_def Let_def)

lemma copy_total [simp]:
  "total_consumed (copy_field ctx bs) = total_consumed ctx + length bs"
  by (simp add: copy_field_def Let_def)

lemma pcf_total [simp]:
  "total_consumed (snd (process_complete_field ctx)) = total_consumed ctx"
  by (cases "state ctx")
     (simp_all add: process_complete_field_def next_field_def Let_def)

lemma pcf_scratch [simp]:
  "scratch (snd (process_complete_field ctx)) = scratch ctx"
  by (cases "state ctx")
     (simp_all add: process_complete_field_def next_field_def Let_def)

lemma pcf_wf:
  "length (scratch ctx) = 32 \<Longrightarrow> fst (process_complete_field ctx) \<Longrightarrow>
     parser_wf (snd (process_complete_field ctx))"
  by (cases "state ctx")
     (simp_all add: process_complete_field_def next_field_def Let_def parser_wf_def split: if_splits)

lemma wf_error: "parser_wf ctx \<Longrightarrow> parser_wf (ctx\<lparr>state := TX_PARSE_STATE_ERROR\<rparr>)"
  by (simp add: parser_wf_def)

lemma wf_loop_copy_fits:
  assumes "parser_wf ctx" "get_field_size (state ctx) \<noteq> 0"
  shows "unat (field_offset ctx) + length (take (take_len ctx (length rest)) rest) \<le> get_field_size (state ctx)"
  using assms by (auto simp add: wf_take_len parser_wf_def)

lemma wf_loop_copy_scratch:
  assumes "parser_wf ctx" "get_field_size (state ctx) \<noteq> 0"
  shows "length (scratch (loop_copy ctx rest)) = 32"
proof -
  have "unat (field_offset ctx) + length (take (take_len ctx (length rest)) rest) \<le> 32"
    using wf_loop_copy_fits[OF assms, of rest] field_size_le[of "state ctx"] by linarith
  then show ?thesis
    unfolding loop_copy_def using assms(1) by (intro copy_scratch_len) (simp_all add: parser_wf_def)
qed

lemma wf_loop_copy_offset:
  assumes "parser_wf ctx" "get_field_size (state ctx) \<noteq> 0"
  shows "unat (field_offset (loop_copy ctx rest))
          = unat (field_offset ctx) + take_len ctx (length rest)"
proof -
  have "unat (field_offset ctx) + length (take (take_len ctx (length rest)) rest) \<le> 32"
    using wf_loop_copy_fits[OF assms, of rest] field_size_le[of "state ctx"] by linarith
  then have "unat (field_offset (loop_copy ctx rest))
      = unat (field_offset ctx) + length (take (take_len ctx (length rest)) rest)"
    unfolding loop_copy_def by (rule copy_offset_unat)
  moreover have "take_len ctx (length rest) \<le> length rest" by (rule take_len_le)
  ultimately show ?thesis by simp
qed

lemma wf_loop_copy_partial:
  assumes "parser_wf ctx" "get_field_size (state ctx) \<noteq> 0"
    and "\<not> field_complete ctx (loop_copy ctx rest)"
  shows "parser_wf (loop_copy ctx rest)"
  using assms wf_loop_copy_scratch[OF assms(1,2), of rest]
  by (simp add: parser_wf_def field_complete_def loop_copy_def)

lemma run_wf: "parser_wf ctx \<Longrightarrow> parser_wf (fst (tx_parser_consume_loop ctx d c))"
proof (induction ctx d c rule: loop_cases_induct)
  case (stop ctx d c)
  then show ?case by (simp add: loop_stop)
next
  case (err ctx d c)
  then show ?case by (simp add: loop_err wf_error)
next
  case (field_ok ctx d c)
  have fs: "get_field_size (state ctx) \<noteq> 0"
    using field_ok.hyps(2) by (simp add: loop_guard_fails_def)
  have "parser_wf (snd (process_complete_field (loop_copy ctx (drop c d))))"
    using field_ok.hyps(4) wf_loop_copy_scratch[OF field_ok.prems fs] by (intro pcf_wf)
  then show ?case using field_ok by (simp add: loop_field_ok)
next
  case (field_bad ctx d c)
  have fs: "get_field_size (state ctx) \<noteq> 0"
    using field_bad.hyps(2) by (simp add: loop_guard_fails_def)
  have "length (scratch (snd (process_complete_field (loop_copy ctx (drop c d))))) = 32"
    using wf_loop_copy_scratch[OF field_bad.prems fs] by simp
  then show ?case using field_bad.hyps by (simp add: loop_field_bad parser_wf_def)
next
  case (partial ctx d c)
  have fs: "get_field_size (state ctx) \<noteq> 0"
    using partial.hyps(2) by (simp add: loop_guard_fails_def)
  have "parser_wf (loop_copy ctx (drop c d))"
    using partial.prems fs partial.hyps(3) by (rule wf_loop_copy_partial)
  then show ?case using partial by (simp add: loop_partial)
qed

lemma run_total:
  "total_consumed (fst (tx_parser_consume_loop ctx d c)) \<le> total_consumed ctx + (length d - c)"
proof (induction ctx d c rule: loop_cases_induct)
  case (stop ctx d c)
  then show ?case by (simp add: loop_stop)
next
  case (err ctx d c)
  then show ?case by (simp add: loop_err)
next
  case (field_ok ctx d c)
  have "take_len ctx (length d - c) \<le> length d - c" by (rule take_len_le)
  then show ?case using field_ok by (simp add: loop_field_ok loop_copy_def) linarith
next
  case (field_bad ctx d c)
  have "take_len ctx (length d - c) \<le> length d - c" by (rule take_len_le)
  then show ?case using field_bad by (simp add: loop_field_bad loop_copy_def)
next
  case (partial ctx d c)
  have "take_len ctx (length d - c) \<le> length d - c" by (rule take_len_le)
  then show ?case using partial by (simp add: loop_partial loop_copy_def) linarith
qed

lemma run_rest_wf: "parser_wf ctx \<Longrightarrow> parser_wf (run_rest ctx rest)"
  unfolding run_rest_def by (rule run_wf)

lemma run_rest_total: "total_consumed (run_rest ctx rest) \<le> total_consumed ctx + length rest"
  unfolding run_rest_def using run_total[of ctx rest 0] by simp

lemma run_terminal:
  "state ctx = TX_PARSE_STATE_DONE \<or> state ctx = TX_PARSE_STATE_ERROR \<Longrightarrow> run_rest ctx rest = ctx"
  by (auto simp add: run_stop running_0)

lemma run_split:
  "parser_wf ctx \<Longrightarrow> total_consumed ctx + length xs + length ys \<le> MAX_TX_SIZE \<Longrightarrow>
     run_rest ctx (xs @ ys) = run_rest (run_rest ctx xs) ys"
proof (induction "length xs" arbitrary: ctx xs rule: less_induct)
  case less
  note wf = less.prems(1) and bound = less.prems(2)
  show ?case
  proof (cases "xs = [] \<or> state ctx = TX_PARSE_STATE_DONE \<or> state ctx = TX_PARSE_STATE_ERROR")
    case True
    then show ?thesis by (auto simp add: run_terminal)
  next
    case False
    then have ne: "xs \<noteq> []" and live: "state ctx \<noteq> TX_PARSE_STATE_DONE" "state ctx \<noteq> TX_PARSE_STATE_ERROR"
      by simp_all
    have runL: "loop_running ctx (xs @ ys) 0" and runX: "loop_running ctx xs 0"
      using ne live by (simp_all add: running_0)
    show ?thesis
    proof (cases "get_field_size (state ctx) = 0")
      case True
      then have g: "loop_guard_fails ctx a" for a by (simp add: loop_guard_fails_def)
      show ?thesis
        by (simp add: run_err[OF runL g] run_err[OF runX g] run_terminal)
    next
      case fs: False
      have tot: "total_consumed ctx < MAX_TX_SIZE"
        using bound ne by (cases xs) simp_all
      have g: "\<not> loop_guard_fails ctx a" for a
        using wf_guard[OF wf fs] tot by simp
      define need where "need = get_field_size (state ctx) - unat (field_offset ctx)"
      have need_pos: "0 < need" and off_need: "unat (field_offset ctx) + need = get_field_size (state ctx)"
        using wf fs by (auto simp add: need_def parser_wf_def)
      have tl: "take_len ctx a = min a need" for a
        using wf_take_len[OF wf fs] by (simp add: need_def)
      show ?thesis
      proof (cases "need \<le> length xs")
        case True
        have tL: "take_len ctx (length (xs @ ys)) = need" and tX: "take_len ctx (length xs) = need"
          using True by (simp_all add: tl)
        have cp: "loop_copy ctx (xs @ ys) = loop_copy ctx xs"
          using True by (simp add: loop_copy_def tL tX del: length_append)
        have cmpl: "field_complete ctx (loop_copy ctx xs)"
          using wf_loop_copy_offset[OF wf fs, of xs] off_need
          by (simp add: field_complete_def tX)
        show ?thesis
        proof (cases "fst (process_complete_field (loop_copy ctx xs))")
          case ok: True
          define c2 where "c2 = snd (process_complete_field (loop_copy ctx xs))"
          have L: "run_rest ctx (xs @ ys) = run_rest c2 (drop need xs @ ys)"
            using run_field_ok[OF runL g] cmpl ok True
            by (simp add: cp tL c2_def del: length_append)
          have X: "run_rest ctx xs = run_rest c2 (drop need xs)"
            using run_field_ok[OF runX g cmpl ok] by (simp add: tX c2_def)
          have wf2: "parser_wf c2"
            unfolding c2_def using ok wf_loop_copy_scratch[OF wf fs, of xs] by (intro pcf_wf)
          have tot2: "total_consumed c2 = total_consumed ctx + need"
            using True by (simp add: c2_def loop_copy_def tX)
          have "run_rest c2 (drop need xs @ ys) = run_rest (run_rest c2 (drop need xs)) ys"
          proof (rule less.hyps)
            show "length (drop need xs) < length xs" using need_pos ne by simp
            show "parser_wf c2" by (rule wf2)
            show "total_consumed c2 + length (drop need xs) + length ys \<le> MAX_TX_SIZE"
              using bound True by (simp add: tot2)
          qed
          then show ?thesis by (simp add: L X)
        next
          case bad: False
          have L: "run_rest ctx (xs @ ys)
                = (snd (process_complete_field (loop_copy ctx xs)))\<lparr>state := TX_PARSE_STATE_ERROR\<rparr>"
            using run_field_bad[OF runL g] cmpl bad by (simp add: cp)
          have X: "run_rest ctx xs
                = (snd (process_complete_field (loop_copy ctx xs)))\<lparr>state := TX_PARSE_STATE_ERROR\<rparr>"
            using run_field_bad[OF runX g cmpl bad] .
          show ?thesis by (simp add: L X run_terminal)
        qed
      next
        case short: False
        have tX: "take_len ctx (length xs) = length xs" using short by (simp add: tl)
        define c1 where "c1 = copy_field ctx xs"
        have cpX: "loop_copy ctx xs = c1" by (simp add: loop_copy_def tX c1_def)
        have off1: "unat (field_offset c1) = unat (field_offset ctx) + length xs"
          using wf_loop_copy_offset[OF wf fs, of xs] by (simp add: cpX tX)
        have ncmpl: "\<not> field_complete ctx (loop_copy ctx xs)"
          using short off_need by (simp add: cpX field_complete_def off1)
        have X: "run_rest ctx xs = c1"
          using run_partial[OF runX g ncmpl] by (simp add: cpX tX)
        show ?thesis
        proof (cases "ys = []")
          case True
          then show ?thesis by (simp add: X)
        next
          case ysne: False
          have wf1: "parser_wf c1"
            using wf_loop_copy_partial[OF wf fs ncmpl] by (simp add: cpX)
          have st1: "state c1 = state ctx" by (simp add: c1_def)
          have fs1: "get_field_size (state c1) \<noteq> 0" using fs by (simp add: st1)
          have tot1: "total_consumed c1 < MAX_TX_SIZE"
            using bound ysne by (cases ys) (simp_all add: c1_def)
          have g1: "\<not> loop_guard_fails c1 a" for a
            using wf_guard[OF wf1 fs1] tot1 by simp
          have run1: "loop_running c1 ys 0" using ysne live by (simp add: running_0 st1)
          define t where "t = min (length xs + length ys) need"
          have t_ge: "length xs \<le> t" using short by (simp add: t_def)
          have tL: "take_len ctx (length (xs @ ys)) = t" by (simp add: tl t_def)
          have tl1: "take_len c1 (length ys) = t - length xs"
            using wf_take_len[OF wf1 fs1, of "length ys"] off_need short
            by (simp add: st1 off1 t_def min_def) linarith
          have fit: "unat (field_offset ctx) + length xs + length (take (t - length xs) ys) \<le> 32"
          proof -
            have "length (take (t - length xs) ys) \<le> t - length xs" by simp
            moreover have "t \<le> need" by (simp add: t_def)
            ultimately have "length xs + length (take (t - length xs) ys) \<le> need"
              using t_ge by linarith
            then show ?thesis using off_need field_size_le[of "state ctx"] by linarith
          qed
          have cp: "loop_copy ctx (xs @ ys) = loop_copy c1 ys"
          proof -
            have "loop_copy ctx (xs @ ys) = copy_field ctx (xs @ take (t - length xs) ys)"
              using t_ge by (simp add: loop_copy_def tL del: length_append)
            also have "\<dots> = copy_field c1 (take (t - length xs) ys)"
              unfolding c1_def using wf fit by (intro copy_field_append[symmetric]) (simp_all add: parser_wf_def)
            also have "\<dots> = loop_copy c1 ys" by (simp add: loop_copy_def tl1)
            finally show ?thesis .
          qed
          have dr: "drop (take_len ctx (length (xs @ ys))) (xs @ ys) = drop (take_len c1 (length ys)) ys"
            using t_ge by (simp add: tL tl1 del: length_append)
          have "run_rest ctx (xs @ ys) = run_rest c1 ys"
            using runL run1 g g1 st1[symmetric] cp dr by (rule run_step_cong)
          then show ?thesis by (simp add: X)
        qed
      qed
    qed
  qed
qed

fun le_word :: "uint8_t list \<Rightarrow> uint64_t" where
  "le_word [] = 0"
| "le_word (b # bs) = ucast b OR push_bit 8 (le_word bs)"

lemma unat_byte_up: "unat (ucast (b::uint8_t) :: uint64_t) = unat b"
proof -
  have "unat b < 2^8" using unsigned_less[of b, where 'a=nat] by simp
  then show ?thesis by (simp add: unsigned_ucast_eq take_bit_eq_mod)
qed

lemma byte_cons_unat:
  fixes b :: uint8_t and w :: uint64_t
  assumes "unat w < 2^56"
  shows "unat (ucast b OR push_bit 8 w) = unat b + 256 * unat w"
proof -
  have disj: "\<not> bit (ucast b :: uint64_t) n \<or> \<not> bit (push_bit 8 w) n" for n
    by (auto simp add: bit_ucast_iff bit_push_bit_iff dest: bit_imp_le_length)
  have eq: "(ucast b :: uint64_t) OR push_bit 8 w = ucast b + push_bit 8 w"
    using disj by (simp add: disjunctive_add)
  have b: "unat b < 256" using unsigned_less[of b, where 'a=nat] by simp
  have "unat w * 256 < 2^64" using assms by simp
  moreover have "unat (push_bit 8 w) = take_bit 64 (push_bit 8 (unat w))"
    by (simp only: unsigned_push_bit_eq) simp
  ultimately have sh: "unat (push_bit 8 w) = unat w * 256"
    by (simp only: take_bit_eq_mod push_bit_eq_mult) simp
  have "unat b + unat w * 256 < 2^64" using assms b by simp
  then have "unat ((ucast b :: uint64_t) + push_bit 8 w) = unat b + unat w * 256"
    by (simp only: unat_word_ariths unat_byte_up sh) simp
  then show ?thesis by (simp add: eq)
qed

lemma le_word_unat:
  "length bs \<le> 8 \<Longrightarrow> unat (le_word bs) = le_nat bs \<and> le_nat bs < 2 ^ (8 * length bs)"
proof (induction bs)
  case Nil
  then show ?case by simp
next
  case (Cons b bs)
  then have IH: "unat (le_word bs) = le_nat bs" "le_nat bs < 2 ^ (8 * length bs)" by simp_all
  have "(2::nat) ^ (8 * length bs) \<le> 2 ^ 56"
    using Cons.prems by (intro power_increasing) simp_all
  then have small: "unat (le_word bs) < 2 ^ 56" using IH by simp
  have b: "unat b < 256" using unsigned_less[of b, where 'a=nat] by simp
  have "unat b + 256 * le_nat bs < 256 + 256 * le_nat bs" using b by simp
  also have "\<dots> = 256 * (le_nat bs + 1)" by simp
  also have "\<dots> \<le> 256 * 2 ^ (8 * length bs)" using IH(2) by (intro mult_le_mono) simp_all
  also have "\<dots> = 2 ^ (8 * length (b # bs))" by (simp add: power_add)
  finally have bound: "le_nat (b # bs) < 2 ^ (8 * length (b # bs))" by simp
  show ?case using byte_cons_unat[OF small, of b] IH(1) bound by simp
qed

lemma read_u64_le_word:
  "read_u64_le buf = le_word [buf ! 0, buf ! 1, buf ! 2, buf ! 3, buf ! 4, buf ! 5, buf ! 6, buf ! 7]"
  by (simp add: read_u64_le_def push_bit_or or.assoc)

lemma take8_nth:
  assumes "8 \<le> length buf"
  shows "take 8 buf = [buf ! 0, buf ! 1, buf ! 2, buf ! 3, buf ! 4, buf ! 5, buf ! 6, buf ! 7]"
proof (rule nth_equalityI)
  show "length (take 8 buf) = length [buf ! 0, buf ! 1, buf ! 2, buf ! 3, buf ! 4, buf ! 5, buf ! 6, buf ! 7]"
    using assms by simp
next
  fix k
  assume "k < length (take 8 buf)"
  then have "k \<in> {0, 1, 2, 3, 4, 5, 6, 7}" by auto
  then show "take 8 buf ! k = [buf ! 0, buf ! 1, buf ! 2, buf ! 3, buf ! 4, buf ! 5, buf ! 6, buf ! 7] ! k"
    by auto
qed

lemma read_u64_le_nat:
  assumes "8 \<le> length buf"
  shows "unat (read_u64_le buf) = le_nat (take 8 buf)"
  unfolding take8_nth[OF assms] read_u64_le_word
  using le_word_unat[of "[buf ! 0, buf ! 1, buf ! 2, buf ! 3, buf ! 4, buf ! 5, buf ! 6, buf ! 7]"]
  by simp

lemma run_field_exact:
  assumes wf: "parser_wf ctx" and fs: "get_field_size (state ctx) = n" "0 < n"
    and off: "field_offset ctx = 0" and tot: "total_consumed ctx < MAX_TX_SIZE"
    and len: "n \<le> length rest"
  shows "run_rest ctx rest =
     (if fst (process_complete_field (copy_field ctx (take n rest)))
      then run_rest (snd (process_complete_field (copy_field ctx (take n rest)))) (drop n rest)
      else (snd (process_complete_field (copy_field ctx (take n rest))))\<lparr>state := TX_PARSE_STATE_ERROR\<rparr>)"
proof -
  have fs0: "get_field_size (state ctx) \<noteq> 0" using fs by simp
  have live: "state ctx \<noteq> TX_PARSE_STATE_DONE" "state ctx \<noteq> TX_PARSE_STATE_ERROR"
    using fs0 by auto
  have ne: "rest \<noteq> []" using len fs(2) by auto
  have run: "loop_running ctx rest 0" using ne live by (simp add: running_0)
  have g: "\<not> loop_guard_fails ctx (length rest)" using wf_guard[OF wf fs0] tot by simp
  have tl: "take_len ctx (length rest) = n"
    using wf_take_len[OF wf fs0, of "length rest"] fs off len by simp
  have cp: "loop_copy ctx rest = copy_field ctx (take n rest)" by (simp add: loop_copy_def tl)
  have "unat (field_offset (loop_copy ctx rest)) = n"
    using wf_loop_copy_offset[OF wf fs0, of rest] by (simp add: tl off)
  then have cmpl: "field_complete ctx (loop_copy ctx rest)" by (simp add: field_complete_def fs)
  show ?thesis
  proof (cases "fst (process_complete_field (copy_field ctx (take n rest)))")
    case True
    then show ?thesis using run_field_ok[OF run g cmpl] by (simp add: cp tl)
  next
    case False
    then show ?thesis using run_field_bad[OF run g cmpl] by (simp add: cp)
  qed
qed

lemma read_u64_le_prefix:
  assumes "length f = 8"
  shows "unat (read_u64_le (f @ junk)) = le_nat f"
  using read_u64_le_nat[of "f @ junk"] assms by simp

text \<open>
  C5. Every 82-byte sequence whose version byte is 1 and whose tx_type byte (offset 53)
  is 0, fed in one call to \<open>tx_parser_consume\<close> on a freshly initialised context,
  leaves the parser in the done state, and \<open>tx_parser_get_parsed\<close> returns the fields
  of the wire: the single bytes and the two 20-byte addresses as they stand, the five
  8-byte integers read little-endian.
\<close>

theorem tx_parser_transfer_fields:
  assumes "length bs = 82" "bs ! 0 = 1" "bs ! 53 = 0"
  shows "tx_parser_is_done (fst (tx_parser_consume tx_parser_init bs))
    \<and> version (tx_parser_get_parsed (fst (tx_parser_consume tx_parser_init bs))) = bs ! 0
    \<and> unat (chain_id (tx_parser_get_parsed (fst (tx_parser_consume tx_parser_init bs))))
         = le_nat (take 8 (drop 1 bs))
    \<and> sender (tx_parser_get_parsed (fst (tx_parser_consume tx_parser_init bs))) = take 20 (drop 9 bs)
    \<and> unat (nonce (tx_parser_get_parsed (fst (tx_parser_consume tx_parser_init bs))))
         = le_nat (take 8 (drop 29 bs))
    \<and> unat (gas_price (tx_parser_get_parsed (fst (tx_parser_consume tx_parser_init bs))))
         = le_nat (take 8 (drop 37 bs))
    \<and> unat (gas_limit (tx_parser_get_parsed (fst (tx_parser_consume tx_parser_init bs))))
         = le_nat (take 8 (drop 45 bs))
    \<and> tx_type (tx_parser_get_parsed (fst (tx_parser_consume tx_parser_init bs))) = bs ! 53
    \<and> recipient (tx_parser_get_parsed (fst (tx_parser_consume tx_parser_init bs))) = take 20 (drop 54 bs)
    \<and> unat (amount (tx_parser_get_parsed (fst (tx_parser_consume tx_parser_init bs))))
         = le_nat (take 8 (drop 74 bs))"
proof -
  define s1 where "s1 = take 8 (drop 1 bs) @ replicate 24 0"
  define s3 where "s3 = take 8 (drop 29 bs) @ drop 8 (take 20 (drop 9 bs)) @ replicate 12 0"
  define s4 where "s4 = take 8 (drop 37 bs) @ drop 8 (take 20 (drop 9 bs)) @ replicate 12 0"
  define s5 where "s5 = take 8 (drop 45 bs) @ drop 8 (take 20 (drop 9 bs)) @ replicate 12 0"
  define s8 where "s8 = take 8 (drop 74 bs) @ drop 8 (take 20 (drop 54 bs)) @ replicate 12 0"
  define p where "p = tx_parser_compute_fee
     \<lparr>version = bs ! 0, chain_id = read_u64_le s1, sender = take 20 (drop 9 bs),
      nonce = read_u64_le s3, gas_price = read_u64_le s4, gas_limit = read_u64_le s5,
      tx_type = bs ! 53, recipient = take 20 (drop 54 bs), amount = read_u64_le s8,
      fee_overflow = False, fee_low = 0, fee_high = 0\<rparr>"
  have run: "state (run_rest tx_parser_init bs) = TX_PARSE_STATE_DONE
      \<and> parsed (run_rest tx_parser_init bs) = p"
    using assms
    by (simp add: run_field_exact tx_parser_init_def tx_parser_ctx_zero_def tx_parsed_zero_def
       process_complete_field_def next_field_def copy_field_def parser_wf_def MAX_TX_SIZE_def Let_def
       nth_append ADDRESS_LEN_def p_def s1_def s3_def s4_def s5_def s8_def)
  have keep: "version (tx_parser_compute_fee q) = version q"
     "chain_id (tx_parser_compute_fee q) = chain_id q"
     "sender (tx_parser_compute_fee q) = sender q"
     "nonce (tx_parser_compute_fee q) = nonce q"
     "gas_price (tx_parser_compute_fee q) = gas_price q"
     "gas_limit (tx_parser_compute_fee q) = gas_limit q"
     "tx_type (tx_parser_compute_fee q) = tx_type q"
     "recipient (tx_parser_compute_fee q) = recipient q"
     "amount (tx_parser_compute_fee q) = amount q" for q
    by (simp_all add: tx_parser_compute_fee_def Let_def)
  have le: "unat (read_u64_le s1) = le_nat (take 8 (drop 1 bs))"
      "unat (read_u64_le s3) = le_nat (take 8 (drop 29 bs))"
      "unat (read_u64_le s4) = le_nat (take 8 (drop 37 bs))"
      "unat (read_u64_le s5) = le_nat (take 8 (drop 45 bs))"
      "unat (read_u64_le s8) = le_nat (take 8 (drop 74 bs))"
    unfolding s1_def s3_def s4_def s5_def s8_def
    using assms(1) by (simp_all add: read_u64_le_prefix)
  show ?thesis
    unfolding consume_fst tx_parser_is_done_def tx_parser_get_parsed_def
    using run by (simp add: p_def keep le)
qed

theorem tx_parser_transfer_fields_witness:
  "length transfer_S1 = 82 \<and> transfer_S1 ! 0 = 1 \<and> transfer_S1 ! 53 = 0
   \<and> tx_parser_is_done (fst (tx_parser_consume tx_parser_init transfer_S1))
   \<and> version (tx_parser_get_parsed (fst (tx_parser_consume tx_parser_init transfer_S1))) = 1
   \<and> unat (chain_id (tx_parser_get_parsed (fst (tx_parser_consume tx_parser_init transfer_S1)))) = 1
   \<and> sender (tx_parser_get_parsed (fst (tx_parser_consume tx_parser_init transfer_S1)))
        = replicate 20 0x11
   \<and> unat (nonce (tx_parser_get_parsed (fst (tx_parser_consume tx_parser_init transfer_S1)))) = 42
   \<and> unat (gas_price (tx_parser_get_parsed (fst (tx_parser_consume tx_parser_init transfer_S1)))) = 1000
   \<and> unat (gas_limit (tx_parser_get_parsed (fst (tx_parser_consume tx_parser_init transfer_S1)))) = 21000
   \<and> tx_type (tx_parser_get_parsed (fst (tx_parser_consume tx_parser_init transfer_S1))) = 0
   \<and> recipient (tx_parser_get_parsed (fst (tx_parser_consume tx_parser_init transfer_S1)))
        = replicate 20 0x22
   \<and> unat (amount (tx_parser_get_parsed (fst (tx_parser_consume tx_parser_init transfer_S1)))) = 1000000"
proof -
  have h: "length transfer_S1 = 82" "transfer_S1 ! 0 = 1" "transfer_S1 ! 53 = 0"
    by (simp_all add: transfer_S1_def nth_append)
  have w: "take 8 (drop 1 transfer_S1) = [1, 0, 0, 0, 0, 0, 0, 0]"
    "take 20 (drop 9 transfer_S1) = replicate 20 0x11"
    "take 8 (drop 29 transfer_S1) = [42, 0, 0, 0, 0, 0, 0, 0]"
    "take 8 (drop 37 transfer_S1) = [0xE8, 0x03, 0, 0, 0, 0, 0, 0]"
    "take 8 (drop 45 transfer_S1) = [0x08, 0x52, 0, 0, 0, 0, 0, 0]"
    "take 20 (drop 54 transfer_S1) = replicate 20 0x22"
    "take 8 (drop 74 transfer_S1) = [0x40, 0x42, 0x0F, 0, 0, 0, 0, 0]"
    by (simp_all add: transfer_S1_def)
  show ?thesis
    using tx_parser_transfer_fields[OF h, unfolded w] h by simp
qed

lemma chunks_general:
  "parser_wf ctx \<Longrightarrow> total_consumed ctx + length (concat chunks) \<le> MAX_TX_SIZE \<Longrightarrow>
     consume_chunks ctx chunks = run_rest ctx (concat chunks)"
proof (induction chunks arbitrary: ctx)
  case Nil
  then show ?case by (simp add: consume_chunks_def)
next
  case (Cons x xs)
  have wf1: "parser_wf (run_rest ctx x)" using Cons.prems(1) by (rule run_rest_wf)
  have "total_consumed (run_rest ctx x) + length (concat xs) \<le> MAX_TX_SIZE"
    using run_rest_total[of ctx x] Cons.prems(2) by simp
  then have "consume_chunks (run_rest ctx x) xs = run_rest (run_rest ctx x) (concat xs)"
    using wf1 by (intro Cons.IH)
  moreover have "run_rest ctx (x @ concat xs) = run_rest (run_rest ctx x) (concat xs)"
    using Cons.prems by (intro run_split) simp_all
  ultimately show ?case by (simp add: consume_chunks_def consume_fst)
qed

lemma init_wf: "parser_wf tx_parser_init"
  by (simp add: parser_wf_def tx_parser_init_def tx_parser_ctx_zero_def)

text \<open>
  C6. For every byte sequence of at most \<open>MAX_TX_SIZE\<close> bytes (every valid transaction
  is 82 bytes long) and every way of cutting it into chunks, of any sizes and across any
  field boundary, feeding the chunks in order to \<open>tx_parser_consume\<close> on a freshly
  initialised context leaves the same context, hence the same parser state and the same
  parsed record, as feeding the whole sequence in one call.
\<close>

theorem tx_parser_chunking:
  assumes "length (concat chunks) \<le> MAX_TX_SIZE"
  shows "consume_chunks tx_parser_init chunks = fst (tx_parser_consume tx_parser_init (concat chunks))
     \<and> state (consume_chunks tx_parser_init chunks)
          = state (fst (tx_parser_consume tx_parser_init (concat chunks)))
     \<and> tx_parser_get_parsed (consume_chunks tx_parser_init chunks)
          = tx_parser_get_parsed (fst (tx_parser_consume tx_parser_init (concat chunks)))"
proof -
  have "total_consumed tx_parser_init + length (concat chunks) \<le> MAX_TX_SIZE"
    using assms by (simp add: tx_parser_init_def tx_parser_ctx_zero_def)
  then have "consume_chunks tx_parser_init chunks = run_rest tx_parser_init (concat chunks)"
    using init_wf by (intro chunks_general)
  then show ?thesis by (simp add: consume_fst)
qed

theorem tx_parser_chunking_witness:
  "length (concat transfer_S1_chunks) \<le> MAX_TX_SIZE
   \<and> concat transfer_S1_chunks = transfer_S1
   \<and> [] \<notin> set transfer_S1_chunks
   \<and> consume_chunks tx_parser_init transfer_S1_chunks
        = fst (tx_parser_consume tx_parser_init transfer_S1)"
proof -
  have c: "concat transfer_S1_chunks = transfer_S1"
    by (simp add: transfer_S1_chunks_def transfer_S1_def)
  have l: "length (concat transfer_S1_chunks) \<le> MAX_TX_SIZE"
    by (simp add: c) (simp add: transfer_S1_def MAX_TX_SIZE_def)
  have n: "[] \<notin> set transfer_S1_chunks"
    by (simp add: transfer_S1_chunks_def transfer_S1_def)
  show ?thesis
    using tx_parser_chunking[OF l] c l n by simp
qed


section \<open>Output buffers and strings\<close>

text \<open>
  A \<open>char\<close> output buffer is the list of its bytes; the length of the list is the
  \<open>out_len\<close> the C caller passes with the pointer. \<open>put_str\<close> writes a string and its
  terminator at the start of a buffer, \<open>put_empty\<close> is \<open>out[0] = 0\<close>, and \<open>c_str\<close>
  reads the string a buffer holds.
\<close>

definition NUL :: char where
  "NUL = CHR 0x00"

definition c_str :: "char list \<Rightarrow> string" where
  "c_str buf = takeWhile (\<lambda>c. c \<noteq> NUL) buf"

definition put_str :: "string \<Rightarrow> char list \<Rightarrow> char list" where
  "put_str s out = s @ [NUL] @ drop (length s + 1) out"

definition put_empty :: "char list \<Rightarrow> char list" where
  "put_empty out = out[0 := NUL]"

section \<open>Base58 (address.c)\<close>

definition BASE58_ALPHABET :: string where
  "BASE58_ALPHABET = ''123456789ABCDEFGHJKLMNPQRSTUVWXYZabcdefghijkmnopqrstuvwxyz''"

definition MAX_INPUT_LEN :: nat where
  "MAX_INPUT_LEN = 32"

definition MAX_B58_LEN :: nat where
  "MAX_B58_LEN = 45"

text \<open>
  The inner \<open>for\<close> loop of \<open>base58_encode\<close>: one long division by 58 of the bytes
  \<open>buf[start..in_len)\<close>, returning the quotient bytes and the final \<open>carry\<close>. The
  \<open>uint32_t\<close> carry is below 58 at the head of every pass, so
  \<open>carry * 256 + buf[i]\<close> stays below \<open>2^32\<close> and the quotient byte below 256.
\<close>

fun divide_by_58 :: "nat \<Rightarrow> uint8_t list \<Rightarrow> uint8_t list \<times> nat" where
  "divide_by_58 carry [] = ([], carry)"
| "divide_by_58 carry (b # bs) =
     (let c = carry * 256 + unat b;
          r = divide_by_58 (c mod 58) bs
      in (of_nat (c div 58) # fst r, snd r))"

text \<open>The two \<open>while\<close> loops that step over zero bytes from an index.\<close>

definition skip_zeros :: "uint8_t list \<Rightarrow> nat \<Rightarrow> nat" where
  "skip_zeros buf start = start + length (takeWhile (\<lambda>b. b = 0) (drop start buf))"

text \<open>
  The outer \<open>while (start < in_len)\<close> loop, carrying the work buffer, \<open>start\<close> and the
  digits emitted so far (\<open>b58_rev\<close>, least significant first; \<open>b58_len\<close> is its
  length). \<open>None\<close> is the overflow return.
\<close>

function base58_loop :: "uint8_t list \<Rightarrow> nat \<Rightarrow> string \<Rightarrow> string option" where
  "base58_loop buf start b58_rev =
     (if start < length buf then
        let r = divide_by_58 0 (drop start buf);
            buf1 = take start buf @ fst r
        in if MAX_B58_LEN \<le> length b58_rev then None
           else base58_loop buf1 (skip_zeros buf1 start) (b58_rev @ [BASE58_ALPHABET ! snd r])
      else Some b58_rev)"
  by pat_completeness auto
termination
  by (relation "measure (\<lambda>(buf, start, b58_rev). MAX_B58_LEN - length b58_rev)") auto

text \<open>
  \<open>base58_encode\<close> returns the count and the output buffer as the call leaves it.
\<close>

definition base58_encode :: "uint8_t list \<Rightarrow> char list \<Rightarrow> nat \<times> char list" where
  "base58_encode inp out =
     (if out = [] then (0, out)
      else if inp = [] then (0, put_empty out)
      else if MAX_INPUT_LEN < length inp then (0, put_empty out)
      else
        let leading_zeros = skip_zeros inp 0 in
        case base58_loop inp leading_zeros [] of
          None \<Rightarrow> (0, put_empty out)
        | Some b58_rev \<Rightarrow>
            let total_len = leading_zeros + length b58_rev in
            if length out < total_len + 1 then (0, put_empty out)
            else (total_len, put_str (replicate leading_zeros (CHR ''1'') @ rev b58_rev) out))"

definition sumchain_address_to_base58 :: "uint8_t list \<Rightarrow> char list \<Rightarrow> nat \<times> char list" where
  "sumchain_address_to_base58 addr20 out = base58_encode (take ADDRESS_LEN addr20) out"

section \<open>Display formatter (tx_display.c)\<close>

definition digit_char :: "uint64_t \<Rightarrow> char" where
  "digit_char d = char_of (48 + unat d)"

function u64_digits_loop :: "uint64_t \<Rightarrow> string \<Rightarrow> string" where
  "u64_digits_loop v buf =
     (if v \<noteq> 0 \<and> length buf < 24
      then u64_digits_loop (v div 10) (buf @ [digit_char (v mod 10)])
      else buf)"
  by pat_completeness auto
termination
  by (relation "measure (\<lambda>(v, buf). 24 - length buf)") auto

definition format_u64_decimal :: "uint64_t \<Rightarrow> char list \<Rightarrow> nat \<times> char list" where
  "format_u64_decimal v out =
     (if out = [] then (0, out)
      else if v = 0 then
        (if length out < 2 then (0, put_empty out) else (1, put_str ''0'' out))
      else
        let buf = u64_digits_loop v [] in
        if length out < length buf + 1 then (0, put_empty out)
        else (length buf, put_str (rev buf) out))"

text \<open>
  The 128-bit loop of \<open>format_fee\<close>. All locals are \<open>uint64_t\<close>; \<open>lo_contrib\<close> and
  \<open>lo_new\<close> are computed with 64-bit wrap-around, as in the source.
\<close>

function fee_digits_loop :: "uint64_t \<Rightarrow> uint64_t \<Rightarrow> string \<Rightarrow> string" where
  "fee_digits_loop lo hi buf =
     (if (lo \<noteq> 0 \<or> hi \<noteq> 0) \<and> length buf < 48 then
        let hi_div = hi div 10;
            hi_rem = hi mod 10;
            lo_contrib = hi_rem * 6 + lo;
            lo_div = lo_contrib div 10;
            lo_rem = lo_contrib mod 10;
            lo_new = hi_rem * 1844674407370955161 + lo_div
        in fee_digits_loop lo_new hi_div (buf @ [digit_char lo_rem])
      else buf)"
  by pat_completeness auto
termination
  by (relation "measure (\<lambda>(lo, hi, buf). 48 - length buf)") auto

definition format_fee :: "uint64_t \<Rightarrow> uint64_t \<Rightarrow> bool \<Rightarrow> char list \<Rightarrow> nat \<times> char list" where
  "format_fee fee_low_v fee_high_v overflow out =
     (if out = [] then (0, out)
      else if overflow then
        (let msg = ''Overflow'' in
         if length out < length msg + 1 then (0, put_empty out)
         else (length msg, put_str msg out))
      else if fee_high_v = 0 then format_u64_decimal fee_low_v out
      else
        let buf = fee_digits_loop fee_low_v fee_high_v [] in
        if length out < length buf + 1 then (0, put_empty out)
        else (length buf, put_str (rev buf) out))"

definition format_address :: "uint8_t list \<Rightarrow> char list \<Rightarrow> nat \<times> char list" where
  "format_address addr20 out = sumchain_address_to_base58 addr20 out"

definition TX_DISPLAY_AMOUNT_MAX_LEN :: nat where
  "TX_DISPLAY_AMOUNT_MAX_LEN = 32"

definition TX_DISPLAY_FEE_MAX_LEN :: nat where
  "TX_DISPLAY_FEE_MAX_LEN = 40"

definition TX_DISPLAY_CHAIN_ID_MAX_LEN :: nat where
  "TX_DISPLAY_CHAIN_ID_MAX_LEN = 24"

definition ADDRESS_BASE58_MAX_LEN :: nat where
  "ADDRESS_BASE58_MAX_LEN = 35"

record tx_display_t =
  d_amount :: "char list"
  d_recipient :: "char list"
  d_fee :: "char list"
  d_chain_id :: "char list"
  d_sender :: "char list"
  d_nonce :: "char list"

definition tx_display_zero :: tx_display_t where
  "tx_display_zero =
     \<lparr>d_amount = replicate TX_DISPLAY_AMOUNT_MAX_LEN NUL,
      d_recipient = replicate ADDRESS_BASE58_MAX_LEN NUL,
      d_fee = replicate TX_DISPLAY_FEE_MAX_LEN NUL,
      d_chain_id = replicate TX_DISPLAY_CHAIN_ID_MAX_LEN NUL,
      d_sender = replicate ADDRESS_BASE58_MAX_LEN NUL,
      d_nonce = replicate TX_DISPLAY_AMOUNT_MAX_LEN NUL\<rparr>"

text \<open>
  \<open>tx_display_format\<close> clears the display structure, formats the six fields in the
  source's order and stops at the first formatter that returns 0.
\<close>

definition tx_display_format :: "tx_parsed_t \<Rightarrow> bool \<times> tx_display_t" where
  "tx_display_format p =
     (let d0 = tx_display_zero;
          r1 = format_u64_decimal (amount p) (d_amount d0);
          d1 = d0\<lparr>d_amount := snd r1\<rparr>
      in if fst r1 = 0 then (False, d1) else
      let r2 = format_address (recipient p) (d_recipient d1);
          d2 = d1\<lparr>d_recipient := snd r2\<rparr>
      in if fst r2 = 0 then (False, d2) else
      let r3 = format_fee (fee_low p) (fee_high p) (fee_overflow p) (d_fee d2);
          d3 = d2\<lparr>d_fee := snd r3\<rparr>
      in if fst r3 = 0 then (False, d3) else
      let r4 = format_u64_decimal (chain_id p) (d_chain_id d3);
          d4 = d3\<lparr>d_chain_id := snd r4\<rparr>
      in if fst r4 = 0 then (False, d4) else
      let r5 = format_address (sender p) (d_sender d4);
          d5 = d4\<lparr>d_sender := snd r5\<rparr>
      in if fst r5 = 0 then (False, d5) else
      let r6 = format_u64_decimal (nonce p) (d_nonce d5);
          d6 = d5\<lparr>d_nonce := snd r6\<rparr>
      in if fst r6 = 0 then (False, d6) else (True, d6))"

text \<open>The number a string of decimal digits denotes.\<close>

definition decimal_value :: "string \<Rightarrow> nat" where
  "decimal_value s = foldl (\<lambda>a c. 10 * a + (of_char c - 48)) 0 s"

text \<open>An address with two leading zero bytes.\<close>

definition address_example :: "uint8_t list" where
  "address_example = [0, 0, 1] @ replicate 17 0x11"


section \<open>Base58: the digits of the encoded number\<close>

text \<open>
  The number a byte sequence denotes when read big-endian, and the base-58 digits of a
  number, least significant first, as characters of the alphabet.
\<close>

fun be_val :: "uint8_t list \<Rightarrow> nat" where
  "be_val [] = 0"
| "be_val (b # bs) = unat b * 256 ^ length bs + be_val bs"

function digits58 :: "nat \<Rightarrow> string" where
  "digits58 n = (if n = 0 then [] else BASE58_ALPHABET ! (n mod 58) # digits58 (n div 58))"
  by pat_completeness auto
termination
  by (relation "measure id") auto

declare digits58.simps [simp del]
declare base58_loop.simps [simp del]

lemma byte_lt: "unat (b :: uint8_t) < 256"
  using unsigned_less[of b, where 'a=nat] by simp

lemma divide_by_58_correct:
  "c < 58 \<Longrightarrow>
     length (fst (divide_by_58 c bs)) = length bs
     \<and> snd (divide_by_58 c bs) < 58
     \<and> be_val (fst (divide_by_58 c bs)) * 58 + snd (divide_by_58 c bs)
          = c * 256 ^ length bs + be_val bs"
proof (induction bs arbitrary: c)
  case Nil
  then show ?case by simp
next
  case (Cons b bs)
  define c' where "c' = c * 256 + unat b"
  define n where "n = length bs"
  have "c' \<le> 57 * 256 + 255" using Cons.prems byte_lt[of b] by (simp add: c'_def)
  then have quot: "c' div 58 < 256" by simp
  have qb: "unat (of_nat (c' div 58) :: uint8_t) = c' div 58"
    using quot by (simp add: unat_of_nat)
  have r: "c' mod 58 < 58" by simp
  note IH = Cons.IH[OF r]
  have step: "divide_by_58 c (b # bs)
      = (of_nat (c' div 58) # fst (divide_by_58 (c' mod 58) bs), snd (divide_by_58 (c' mod 58) bs))"
    by (simp add: c'_def Let_def)
  have "be_val (of_nat (c' div 58) # fst (divide_by_58 (c' mod 58) bs)) * 58
          + snd (divide_by_58 (c' mod 58) bs)
        = (c' div 58) * 256 ^ n * 58
          + (be_val (fst (divide_by_58 (c' mod 58) bs)) * 58 + snd (divide_by_58 (c' mod 58) bs))"
    using IH by (simp add: qb n_def algebra_simps)
  also have "\<dots> = (c' div 58) * 256 ^ n * 58 + ((c' mod 58) * 256 ^ n + be_val bs)"
    using IH by (simp add: n_def)
  also have "\<dots> = c' * 256 ^ n + be_val bs"
  proof -
    have "x * p * 58 + y * p = (x * 58 + y) * p" for x y p :: nat
      by (simp add: algebra_simps)
    then have "(c' div 58) * 256 ^ n * 58 + (c' mod 58) * 256 ^ n
        = (c' div 58 * 58 + c' mod 58) * 256 ^ n" .
    also have "\<dots> = c' * 256 ^ n" by (simp only: div_mult_mod_eq)
    finally show ?thesis by simp
  qed
  also have "\<dots> = c * 256 ^ length (b # bs) + be_val (b # bs)"
    by (simp add: c'_def n_def algebra_simps)
  finally have main: "be_val (of_nat (c' div 58) # fst (divide_by_58 (c' mod 58) bs)) * 58
          + snd (divide_by_58 (c' mod 58) bs) = c * 256 ^ length (b # bs) + be_val (b # bs)" .
  show ?case unfolding step fst_conv snd_conv
    using IH main by (intro conjI) simp_all
qed

lemma divide_by_58_zero:
  "length (fst (divide_by_58 0 bs)) = length bs"
  "snd (divide_by_58 0 bs) = be_val bs mod 58"
  "be_val (fst (divide_by_58 0 bs)) = be_val bs div 58"
proof -
  have c: "(0::nat) < 58" by simp
  note d = divide_by_58_correct[OF c, of bs]
  show "length (fst (divide_by_58 0 bs)) = length bs" using d by simp
  have eq: "be_val (fst (divide_by_58 0 bs)) * 58 + snd (divide_by_58 0 bs) = be_val bs"
    and lt: "snd (divide_by_58 0 bs) < 58"
    using d by simp_all
  show "snd (divide_by_58 0 bs) = be_val bs mod 58"
    using lt by (simp add: eq[symmetric])
  show "be_val (fst (divide_by_58 0 bs)) = be_val bs div 58"
    using lt by (simp add: eq[symmetric])
qed

lemma be_val_dropWhile: "be_val (dropWhile (\<lambda>b. b = 0) bs) = be_val bs"
  by (induction bs) simp_all

lemma be_val_pos: "bs \<noteq> [] \<Longrightarrow> hd bs \<noteq> 0 \<Longrightarrow> 0 < be_val bs"
  by (cases bs) (simp_all add: unat_gt_0)

lemma be_val_bound: "be_val bs < 256 ^ length bs"
proof (induction bs)
  case Nil
  then show ?case by simp
next
  case (Cons b bs)
  have "unat b * 256 ^ length bs + be_val bs < unat b * 256 ^ length bs + 256 ^ length bs"
    using Cons.IH by simp
  also have "\<dots> = (unat b + 1) * 256 ^ length bs" by simp
  also have "\<dots> \<le> 256 * 256 ^ length bs"
    using byte_lt[of b] by (intro mult_le_mono) simp_all
  finally show ?case by simp
qed

lemma digits58_0 [simp]: "digits58 0 = []"
  by (simp add: digits58.simps)

lemma digits58_pos:
  "0 < n \<Longrightarrow> digits58 n = BASE58_ALPHABET ! (n mod 58) # digits58 (n div 58)"
  by (subst digits58.simps) simp

lemma skip_zeros_drop:
  "drop (skip_zeros buf start) buf = dropWhile (\<lambda>b. b = 0) (drop start buf)"
proof -
  have "drop (skip_zeros buf start) buf
      = drop (length (takeWhile (\<lambda>b. b = 0) (drop start buf))) (drop start buf)"
    by (simp add: skip_zeros_def add.commute)
  then show ?thesis by (simp add: dropWhile_eq_drop)
qed

lemma skip_zeros_le: "start \<le> length buf \<Longrightarrow> skip_zeros buf start \<le> length buf"
proof -
  assume "start \<le> length buf"
  moreover have "length (takeWhile (\<lambda>b. b = 0) (drop start buf)) \<le> length (drop start buf)"
    by (rule length_takeWhile_le)
  ultimately show ?thesis by (simp add: skip_zeros_def)
qed

lemma dropWhile_head: "dropWhile P xs = [] \<or> \<not> P (hd (dropWhile P xs))"
  using hd_dropWhile[of P xs] by blast

lemma base58_loop_digits:
  "start \<le> length buf \<Longrightarrow> drop start buf = [] \<or> hd (drop start buf) \<noteq> 0 \<Longrightarrow>
   length b58_rev + length (digits58 (be_val (drop start buf))) \<le> MAX_B58_LEN \<Longrightarrow>
     base58_loop buf start b58_rev = Some (b58_rev @ digits58 (be_val (drop start buf)))"
proof (induction "be_val (drop start buf)" arbitrary: buf start b58_rev rule: less_induct)
  case less
  show ?case
  proof (cases "start < length buf")
    case False
    then show ?thesis by (simp add: base58_loop.simps[of buf start b58_rev])
  next
    case True
    define bs where "bs = drop start buf"
    have ne: "bs \<noteq> []" using True by (simp add: bs_def)
    then have hd0: "hd bs \<noteq> 0" using less.prems(2) by (simp add: bs_def)
    have V: "0 < be_val bs" using ne hd0 by (rule be_val_pos)
    define q where "q = fst (divide_by_58 0 bs)"
    define r where "r = snd (divide_by_58 0 bs)"
    have lq: "length q = length bs" and rv: "r = be_val bs mod 58"
      and qv: "be_val q = be_val bs div 58"
      by (simp_all add: q_def r_def divide_by_58_zero)
    define buf1 where "buf1 = take start buf @ q"
    have d1: "drop start buf1 = q" using True by (simp add: buf1_def)
    have l1: "length buf1 = length buf" using True by (simp add: buf1_def lq bs_def)
    define start1 where "start1 = skip_zeros buf1 start"
    have dr1: "drop start1 buf1 = dropWhile (\<lambda>b. b = 0) q"
      by (simp add: start1_def skip_zeros_drop d1)
    have v1: "be_val (drop start1 buf1) = be_val bs div 58"
      by (simp add: dr1 be_val_dropWhile qv)
    have dg: "digits58 (be_val bs) = BASE58_ALPHABET ! r # digits58 (be_val bs div 58)"
      using digits58_pos[OF V] by (simp add: rv)
    have room: "length b58_rev < MAX_B58_LEN"
      using less.prems(3) by (simp add: bs_def[symmetric] dg)
    have IH: "base58_loop buf1 start1 (b58_rev @ [BASE58_ALPHABET ! r])
        = Some ((b58_rev @ [BASE58_ALPHABET ! r]) @ digits58 (be_val (drop start1 buf1)))"
    proof (rule less.hyps)
      show "be_val (drop start1 buf1) < be_val (drop start buf)"
        using V by (simp add: v1 bs_def[symmetric])
      show "start1 \<le> length buf1"
        unfolding start1_def using less.prems(1) l1 by (intro skip_zeros_le) simp
      show "drop start1 buf1 = [] \<or> hd (drop start1 buf1) \<noteq> 0"
        unfolding dr1 using dropWhile_head[of "\<lambda>b. b = 0" q] by simp
      show "length (b58_rev @ [BASE58_ALPHABET ! r]) + length (digits58 (be_val (drop start1 buf1)))
          \<le> MAX_B58_LEN"
        using less.prems(3) by (simp add: v1 bs_def[symmetric] dg)
    qed
    have "base58_loop buf start b58_rev
        = base58_loop buf1 start1 (b58_rev @ [BASE58_ALPHABET ! r])"
      using True room
      by (subst base58_loop.simps)
         (simp add: Let_def bs_def[symmetric] q_def[symmetric] r_def[symmetric]
            buf1_def[symmetric] start1_def[symmetric])
    then show ?thesis by (simp add: IH v1 bs_def[symmetric] dg)
  qed
qed

lemma alphabet_length: "length BASE58_ALPHABET = 58"
  by (simp add: BASE58_ALPHABET_def)

lemma alphabet_distinct: "distinct BASE58_ALPHABET"
  by (simp add: BASE58_ALPHABET_def)

lemma alphabet_first: "BASE58_ALPHABET ! 0 = CHR ''1''"
  by (simp add: BASE58_ALPHABET_def)

lemma alphabet_no_NUL: "NUL \<notin> set BASE58_ALPHABET"
  by (simp add: BASE58_ALPHABET_def NUL_def)

lemma alphabet_one: "CHR ''1'' \<in> set BASE58_ALPHABET"
  by (simp add: BASE58_ALPHABET_def)

lemma alphabet_nth_in: "d < 58 \<Longrightarrow> BASE58_ALPHABET ! d \<in> set BASE58_ALPHABET"
  by (simp add: alphabet_length)

lemma alphabet_nth_not_one:
  assumes "0 < d" "d < 58"
  shows "BASE58_ALPHABET ! d \<noteq> CHR ''1''"
proof
  assume "BASE58_ALPHABET ! d = CHR ''1''"
  then have "BASE58_ALPHABET ! d = BASE58_ALPHABET ! 0" by (simp add: alphabet_first)
  then have "d = 0"
    using alphabet_distinct assms(2) by (simp add: nth_eq_iff_index_eq alphabet_length)
  then show False using assms(1) by simp
qed

lemma digits58_set: "set (digits58 n) \<subseteq> set BASE58_ALPHABET"
proof (induction n rule: less_induct)
  case (less n)
  show ?case
  proof (cases "n = 0")
    case True
    then show ?thesis by simp
  next
    case False
    then have pos: "0 < n" by simp
    have "set (digits58 (n div 58)) \<subseteq> set BASE58_ALPHABET"
      using pos by (intro less.IH) simp
    then show ?thesis
      using alphabet_nth_in[of "n mod 58"] by (simp add: digits58_pos[OF pos])
  qed
qed

lemma digits58_length: "n < 58 ^ k \<Longrightarrow> length (digits58 n) \<le> k"
proof (induction k arbitrary: n)
  case 0
  then show ?case by simp
next
  case (Suc k)
  show ?case
  proof (cases "n = 0")
    case True
    then show ?thesis by simp
  next
    case False
    then have pos: "0 < n" by simp
    have "n div 58 < 58 ^ k" using Suc.prems by (simp add: less_mult_imp_div_less mult.commute)
    then have "length (digits58 (n div 58)) \<le> k" by (rule Suc.IH)
    then show ?thesis by (simp add: digits58_pos[OF pos])
  qed
qed

lemma digits58_nonempty: "0 < n \<Longrightarrow> digits58 n \<noteq> []"
  by (simp add: digits58_pos)

lemma digits58_last: "0 < n \<Longrightarrow> last (digits58 n) \<noteq> CHR ''1''"
proof (induction n rule: less_induct)
  case (less n)
  note pos = less.prems
  show ?case
  proof (cases "n div 58 = 0")
    case True
    then have small: "n < 58" by (simp add: div_eq_0_iff)
    then have "digits58 n = [BASE58_ALPHABET ! n]"
      using True by (simp add: digits58_pos[OF pos])
    then show ?thesis using alphabet_nth_not_one[OF pos small] by simp
  next
    case False
    then have p: "0 < n div 58" by simp
    have "last (digits58 (n div 58)) \<noteq> CHR ''1''"
      using p pos by (intro less.IH) simp_all
    then show ?thesis
      using digits58_nonempty[OF p] by (simp add: digits58_pos[OF pos])
  qed
qed

lemma takeWhile_ones:
  assumes "ds = [] \<or> hd ds \<noteq> c"
  shows "takeWhile (\<lambda>x. x = c) (replicate z c @ ds) = replicate z c"
proof -
  have "takeWhile (\<lambda>x. x = c) ds = []" using assms by (cases ds) auto
  then show ?thesis by (induction z) simp_all
qed

lemma takeWhile_until_NUL:
  "NUL \<notin> set s \<Longrightarrow> takeWhile (\<lambda>c. c \<noteq> NUL) (s @ NUL # rest) = s"
  by (induction s) auto

lemma c_str_put_str: "NUL \<notin> set s \<Longrightarrow> c_str (put_str s out) = s"
  by (simp add: c_str_def put_str_def takeWhile_until_NUL)

lemma pow_256_58: "n \<le> 20 \<Longrightarrow> (256::nat) ^ n \<le> 58 ^ (n + 14)"
proof -
  assume n: "n \<le> 20"
  have "(256::nat) \<le> 5 * 58" by simp
  then have "(256::nat) ^ n \<le> (5 * 58) ^ n" by (rule power_mono) simp
  then have "(256::nat) ^ n \<le> 5 ^ n * 58 ^ n" by (simp only: power_mult_distrib)
  also have "\<dots> \<le> 5 ^ 20 * 58 ^ n"
    using n by (intro mult_le_mono power_increasing) simp_all
  also have "\<dots> \<le> 58 ^ 14 * 58 ^ n" by (intro mult_le_mono) simp_all
  also have "\<dots> = 58 ^ (n + 14)" by (simp add: power_add)
  finally show ?thesis .
qed

text \<open>
  What \<open>base58_encode\<close> returns for a 20-byte input and a buffer of at least 35 bytes: one
  \<open>1\<close> for each leading zero byte, then the base-58 digits of the rest, most significant
  first; between 1 and 34 characters.
\<close>

lemma base58_encode_result:
  assumes len: "length inp = 20" and room: "ADDRESS_BASE58_MAX_LEN \<le> length out"
  defines "z \<equiv> length (takeWhile (\<lambda>b. b = 0) inp)"
  defines "ds \<equiv> digits58 (be_val (drop z inp))"
  shows "base58_encode inp out = (z + length ds, put_str (replicate z (CHR ''1'') @ rev ds) out)"
    and "z + length ds \<le> 34" and "1 \<le> z + length ds"
proof -
  define bs where "bs = drop z inp"
  have ds: "ds = digits58 (be_val bs)" by (simp add: ds_def bs_def)
  have sk: "skip_zeros inp 0 = z" by (simp add: skip_zeros_def z_def)
  have z_le: "z \<le> 20" using length_takeWhile_le[of "\<lambda>b. b = 0" inp] len by (simp add: z_def)
  have bs_dw: "bs = dropWhile (\<lambda>b. b = 0) inp" by (simp add: bs_def z_def dropWhile_eq_drop)
  have head: "bs = [] \<or> hd bs \<noteq> 0"
    unfolding bs_dw using dropWhile_head[of "\<lambda>b. b = 0" inp] by simp
  have lbs: "length bs = 20 - z" by (simp add: bs_def len)
  have "be_val bs < 256 ^ (20 - z)" using be_val_bound[of bs] by (simp add: lbs)
  also have "\<dots> \<le> 58 ^ (20 - z + 14)" by (intro pow_256_58) simp
  finally have "length ds \<le> 20 - z + 14" unfolding ds by (rule digits58_length)
  then show dlen: "z + length ds \<le> 34" using z_le by simp
  have loop: "base58_loop inp z [] = Some ds"
    using base58_loop_digits[of z inp "[]"] head dlen z_le len
    by (simp add: bs_def[symmetric] ds[symmetric] MAX_B58_LEN_def)
  show "base58_encode inp out = (z + length ds, put_str (replicate z (CHR ''1'') @ rev ds) out)"
    using len room dlen
    by (simp add: base58_encode_def sk loop Let_def MAX_INPUT_LEN_def
        ADDRESS_BASE58_MAX_LEN_def) auto
  show "1 \<le> z + length ds"
  proof (cases "bs = []")
    case True
    then have "z = 20" using lbs z_le by simp
    then show ?thesis by simp
  next
    case False
    then have "0 < be_val bs" using head by (intro be_val_pos) simp_all
    then have "ds \<noteq> []" unfolding ds by (rule digits58_nonempty)
    then show ?thesis by (cases ds) simp_all
  qed
qed

lemma format_address_ok:
  assumes "length addr20 = 20" and "ADDRESS_BASE58_MAX_LEN \<le> length out"
  shows "fst (format_address addr20 out) \<noteq> 0"
proof -
  have "1 \<le> fst (base58_encode addr20 out)"
    unfolding base58_encode_result(1)[OF assms] fst_conv
    by (rule base58_encode_result(3)[OF assms])
  then show ?thesis
    using assms(1) by (simp add: format_address_def sumchain_address_to_base58_def ADDRESS_LEN_def)
qed

text \<open>
  C8. For every 20-byte input and every output buffer of at least 35 bytes,
  \<open>base58_encode\<close> returns the length of the string it wrote, the string is terminated
  by a zero byte at that index, all its characters belong to the Base58 alphabet, its
  length lies between 1 and 34, and it starts with exactly as many characters \<open>1\<close> as
  the input starts with zero bytes.
\<close>

theorem base58_encode_address:
  assumes len: "length inp = 20" and room: "ADDRESS_BASE58_MAX_LEN \<le> length out"
  shows "fst (base58_encode inp out) = length (c_str (snd (base58_encode inp out)))
    \<and> snd (base58_encode inp out) ! fst (base58_encode inp out) = NUL
    \<and> set (c_str (snd (base58_encode inp out))) \<subseteq> set BASE58_ALPHABET
    \<and> 1 \<le> length (c_str (snd (base58_encode inp out)))
    \<and> length (c_str (snd (base58_encode inp out))) \<le> 34
    \<and> length (takeWhile (\<lambda>c. c = CHR ''1'') (c_str (snd (base58_encode inp out))))
         = length (takeWhile (\<lambda>b. b = 0) inp)"
proof -
  define z where "z = length (takeWhile (\<lambda>b. b = 0) inp)"
  define bs where "bs = drop z inp"
  define ds where "ds = digits58 (be_val bs)"
  define s where "s = replicate z (CHR ''1'') @ rev ds"
  have bs_dw: "bs = dropWhile (\<lambda>b. b = 0) inp" by (simp add: bs_def z_def dropWhile_eq_drop)
  have head: "bs = [] \<or> hd bs \<noteq> 0"
    unfolding bs_dw using dropWhile_head[of "\<lambda>b. b = 0" inp] by simp
  have enc: "base58_encode inp out = (z + length ds, put_str s out)"
    using base58_encode_result(1)[OF len room] by (simp add: z_def bs_def ds_def s_def)
  have dlen: "z + length ds \<le> 34"
    using base58_encode_result(2)[OF len room] by (simp add: z_def bs_def ds_def)
  have slen: "length s = z + length ds" by (simp add: s_def)
  have pos: "1 \<le> length s"
    using base58_encode_result(3)[OF len room] by (simp add: slen z_def bs_def ds_def)
  have in_alpha: "set s \<subseteq> set BASE58_ALPHABET"
    using digits58_set[of "be_val bs"] alphabet_one by (auto simp add: s_def ds_def)
  then have noNUL: "NUL \<notin> set s" using alphabet_no_NUL by auto
  have cs: "c_str (snd (base58_encode inp out)) = s"
    by (simp add: enc c_str_put_str[OF noNUL])
  have nul_at: "snd (base58_encode inp out) ! fst (base58_encode inp out) = NUL"
    by (simp add: enc put_str_def slen[symmetric] nth_append)
  have lead: "rev ds = [] \<or> hd (rev ds) \<noteq> CHR ''1''"
  proof (cases "bs = []")
    case True
    then show ?thesis by (simp add: ds_def)
  next
    case False
    then have p: "0 < be_val bs" using head by (intro be_val_pos) simp_all
    have "ds \<noteq> []" unfolding ds_def using p by (rule digits58_nonempty)
    moreover have "last ds \<noteq> CHR ''1''" unfolding ds_def using p by (rule digits58_last)
    ultimately show ?thesis by (simp add: hd_rev)
  qed
  have ones: "takeWhile (\<lambda>c. c = CHR ''1'') s = replicate z (CHR ''1'')"
    unfolding s_def using lead by (rule takeWhile_ones)
  show ?thesis
    unfolding cs using enc in_alpha pos dlen nul_at cs
    by (simp add: slen ones z_def)
qed

theorem base58_encode_address_witness:
  "length address_example = 20
   \<and> ADDRESS_BASE58_MAX_LEN \<le> length (replicate 35 NUL)
   \<and> fst (base58_encode address_example (replicate 35 NUL))
        = length (c_str (snd (base58_encode address_example (replicate 35 NUL))))
   \<and> set (c_str (snd (base58_encode address_example (replicate 35 NUL)))) \<subseteq> set BASE58_ALPHABET
   \<and> 1 \<le> length (c_str (snd (base58_encode address_example (replicate 35 NUL))))
   \<and> length (c_str (snd (base58_encode address_example (replicate 35 NUL)))) \<le> 34
   \<and> length (takeWhile (\<lambda>c. c = CHR ''1'')
         (c_str (snd (base58_encode address_example (replicate 35 NUL))))) = 2"
proof -
  have l: "length address_example = 20" by (simp add: address_example_def)
  have r: "ADDRESS_BASE58_MAX_LEN \<le> length (replicate 35 NUL)"
    by (simp add: ADDRESS_BASE58_MAX_LEN_def)
  have z: "length (takeWhile (\<lambda>b. b = 0) address_example) = 2"
    by (simp add: address_example_def)
  show ?thesis
    using base58_encode_address[OF l r] l r by (simp add: z)
qed

section \<open>The decimal strings\<close>

text \<open>
  With the overflow flag set \<open>format_fee\<close> writes \<open>Overflow\<close>, and with a zero high part
  it is \<open>format_u64_decimal\<close>, which writes the decimal digits of its argument.
  \<open>dec_digits\<close> lists the decimal digits of a number, least significant first, and
  \<open>decimal_string\<close> is the decimal representation of a number.
\<close>

fun dec_digits :: "nat \<Rightarrow> string" where
  "dec_digits n = (if n = 0 then [] else char_of (48 + n mod 10) # dec_digits (n div 10))"

definition decimal_string :: "nat \<Rightarrow> string" where
  "decimal_string n = (if n = 0 then ''0'' else rev (dec_digits n))"

declare dec_digits.simps [simp del]

lemma dec_digits_0: "dec_digits 0 = []"
  by (simp add: dec_digits.simps)

lemma dec_digits_pos: "0 < n \<Longrightarrow> dec_digits n = char_of (48 + n mod 10) # dec_digits (n div 10)"
  by (subst dec_digits.simps) simp

lemma dec_digits_length: "n < 10 ^ k \<Longrightarrow> length (dec_digits n) \<le> k"
proof (induction k arbitrary: n)
  case 0
  then show ?case by (simp add: dec_digits_0)
next
  case (Suc k)
  show ?case
  proof (cases "n = 0")
    case True
    then show ?thesis by (simp add: dec_digits_0)
  next
    case False
    have "n div 10 < 10 ^ k" using Suc.prems by (simp add: less_mult_imp_div_less mult.commute)
    then have "length (dec_digits (n div 10)) \<le> k" by (rule Suc.IH)
    then show ?thesis using False by (simp add: dec_digits_pos)
  qed
qed

lemma digit_char_mod: "digit_char (v mod 10) = char_of (48 + unat v mod 10)"
  by (simp add: digit_char_def unat_mod)

lemma u64_digits_loop_digits:
  "length buf + length (dec_digits (unat v)) \<le> 24 \<Longrightarrow>
     u64_digits_loop v buf = buf @ dec_digits (unat v)"
proof (induction v buf rule: u64_digits_loop.induct)
  case (1 v buf)
  show ?case
  proof (cases "v = 0")
    case True
    then show ?thesis by (subst u64_digits_loop.simps) (simp add: dec_digits_0)
  next
    case False
    then have pos: "0 < unat v" by (simp add: unat_gt_0)
    have d: "dec_digits (unat v) = char_of (48 + unat v mod 10) # dec_digits (unat (v div 10))"
      using dec_digits_pos[OF pos] by (simp add: unat_div)
    have room: "length buf < 24" using "1.prems" by (simp add: d)
    have "u64_digits_loop (v div 10) (buf @ [digit_char (v mod 10)])
        = (buf @ [digit_char (v mod 10)]) @ dec_digits (unat (v div 10))"
      using False room "1.prems" by (intro "1.IH") (simp_all add: d)
    then show ?thesis
      using False room by (subst u64_digits_loop.simps) (simp add: d digit_char_mod)
  qed
qed

lemma decimal_value_snoc:
  "decimal_value (s @ [c]) = 10 * decimal_value s + (of_char c - 48)"
  by (simp add: decimal_value_def)

lemma decimal_value_digits: "decimal_value (rev (dec_digits n)) = n"
proof (induction n rule: less_induct)
  case (less n)
  show ?case
  proof (cases "n = 0")
    case True
    then show ?thesis by (simp add: dec_digits_0 decimal_value_def)
  next
    case False
    then have "decimal_value (rev (dec_digits (n div 10))) = n div 10"
      by (intro less.IH) simp
    moreover have "of_char (char_of (48 + n mod 10 :: nat)) = (48 + n mod 10 :: nat)"
      by (simp add: of_char_of)
    ultimately show ?thesis using False by (simp add: dec_digits_pos decimal_value_snoc)
  qed
qed

lemma dec_digits_no_NUL: "NUL \<notin> set (dec_digits n)"
proof (induction n rule: less_induct)
  case (less n)
  show ?case
  proof (cases "n = 0")
    case True
    then show ?thesis by (simp add: dec_digits_0)
  next
    case False
    then have "NUL \<notin> set (dec_digits (n div 10))" by (intro less.IH) simp
    moreover have "char_of (48 + n mod 10) \<noteq> NUL"
    proof
      assume "char_of (48 + n mod 10) = NUL"
      then have "of_char (char_of (48 + n mod 10 :: nat)) = (of_char NUL :: nat)" by simp
      then show False by (simp add: of_char_of NUL_def)
    qed
    ultimately show ?thesis using False by (simp add: dec_digits_pos)
  qed
qed

lemma nonempty_buffer: "Suc n \<le> length out \<Longrightarrow> out \<noteq> []"
  by (cases out) simp_all

lemma format_u64_decimal_zero:
  assumes "2 \<le> length out"
  shows "format_u64_decimal 0 out = (1, put_str ''0'' out)"
proof -
  have "out \<noteq> []" using assms by (intro nonempty_buffer[of 1]) simp
  moreover have "\<not> length out < 2" using assms by simp
  ultimately show ?thesis by (simp add: format_u64_decimal_def)
qed

lemma format_u64_decimal_digits:
  assumes "21 \<le> length out" and "v \<noteq> 0"
  shows "format_u64_decimal v out
     = (length (dec_digits (unat v)), put_str (rev (dec_digits (unat v))) out)"
proof -
  have "unat v < 2 ^ 64" using unsigned_less[of v] by simp
  also have "(2::nat) ^ 64 < 10 ^ 20" by simp
  finally have len: "length (dec_digits (unat v)) \<le> 20" by (rule dec_digits_length)
  then have loop: "u64_digits_loop v [] = dec_digits (unat v)"
    using u64_digits_loop_digits[of "[]" v] by simp
  have ne: "out \<noteq> []" using assms(1) by (intro nonempty_buffer[of 20]) simp
  have fits: "\<not> length out < length (dec_digits (unat v)) + 1" using assms(1) len by simp
  show ?thesis
    unfolding format_u64_decimal_def Let_def loop
    using ne fits assms(2) by (simp only: if_False if_not_P)
qed

lemma format_u64_decimal_exact:
  assumes "21 \<le> length out"
  shows "fst (format_u64_decimal v out) = length (c_str (snd (format_u64_decimal v out)))
     \<and> decimal_value (c_str (snd (format_u64_decimal v out))) = unat v"
proof (cases "v = 0")
  case True
  have z: "NUL \<notin> set ''0''" by (simp add: NUL_def)
  have r: "format_u64_decimal v out = (1, put_str ''0'' out)"
    unfolding True using assms by (intro format_u64_decimal_zero) simp
  have v: "decimal_value ''0'' = 0" by (simp add: decimal_value_def)
  show ?thesis
    unfolding r fst_conv snd_conv c_str_put_str[OF z] v using True by simp
next
  case False
  have nn: "NUL \<notin> set (rev (dec_digits (unat v)))" using dec_digits_no_NUL by simp
  show ?thesis
    unfolding format_u64_decimal_digits[OF assms False] fst_conv snd_conv c_str_put_str[OF nn]
      decimal_value_digits
    by simp
qed

lemma format_fee_overflow:
  assumes "9 \<le> length out"
  shows "format_fee lo hi True out = (8, put_str ''Overflow'' out)"
    and "c_str (snd (format_fee lo hi True out)) = ''Overflow''"
proof -
  have ne: "out \<noteq> []" using assms by (intro nonempty_buffer[of 8]) simp
  have fits: "\<not> length out < 9" using assms by simp
  show r: "format_fee lo hi True out = (8, put_str ''Overflow'' out)"
    using ne fits by (simp add: format_fee_def Let_def)
  have "NUL \<notin> set ''Overflow''" by (simp add: NUL_def)
  then show "c_str (snd (format_fee lo hi True out)) = ''Overflow''"
    unfolding r snd_conv by (rule c_str_put_str)
qed

lemma format_fee_low_part:
  assumes "21 \<le> length out"
  shows "decimal_value (c_str (snd (format_fee lo 0 False out))) = unat lo"
proof -
  have ne: "out \<noteq> []" using assms by (intro nonempty_buffer[of 20]) simp
  have "format_fee lo 0 False out = format_u64_decimal lo out"
    using ne by (simp add: format_fee_def)
  then show ?thesis using format_u64_decimal_exact[OF assms, of lo] by simp
qed

lemma decimal_string_value: "decimal_value (decimal_string n) = n"
  by (simp add: decimal_string_def decimal_value_digits) (simp add: decimal_value_def)

lemma format_u64_decimal_string:
  assumes "21 \<le> length out"
  shows "c_str (snd (format_u64_decimal v out)) = decimal_string (unat v)"
proof (cases "v = 0")
  case True
  have z: "NUL \<notin> set ''0''" by (simp add: NUL_def)
  have r: "format_u64_decimal v out = (1, put_str ''0'' out)"
    unfolding True using assms by (intro format_u64_decimal_zero) simp
  show ?thesis unfolding r snd_conv c_str_put_str[OF z] using True by (simp add: decimal_string_def)
next
  case False
  have nn: "NUL \<notin> set (rev (dec_digits (unat v)))" using dec_digits_no_NUL by simp
  have "unat v \<noteq> 0" using False by (simp add: unat_eq_0)
  then show ?thesis
    unfolding format_u64_decimal_digits[OF assms False] snd_conv c_str_put_str[OF nn]
    by (simp add: decimal_string_def)
qed

text \<open>
  \<open>format_fee\<close> on a triple whose overflow flag says whether the high part is non-zero,
  with the 40-byte buffer of the display structure or a larger one.
\<close>

lemma format_fee_on_consistent:
  assumes inv: "ov = (hi \<noteq> 0)" and room: "TX_DISPLAY_FEE_MAX_LEN \<le> length out"
  shows "(ov \<longrightarrow> c_str (snd (format_fee lo hi ov out)) = ''Overflow'')
     \<and> (\<not> ov \<longrightarrow> c_str (snd (format_fee lo hi ov out)) = decimal_string (unat hi * 2 ^ 64 + unat lo)
            \<and> decimal_value (c_str (snd (format_fee lo hi ov out))) = unat hi * 2 ^ 64 + unat lo)"
proof (cases ov)
  case True
  have "9 \<le> length out" using room by (simp add: TX_DISPLAY_FEE_MAX_LEN_def)
  then show ?thesis using True format_fee_overflow(2)[of out lo hi] by simp
next
  case False
  then have hi: "hi = 0" using inv by simp
  have l: "21 \<le> length out" using room by (simp add: TX_DISPLAY_FEE_MAX_LEN_def)
  have ne: "out \<noteq> []" using l by (intro nonempty_buffer[of 20]) simp
  have r: "format_fee lo 0 False out = format_u64_decimal lo out"
    using ne by (simp add: format_fee_def)
  show ?thesis
    using False by (simp add: r hi format_u64_decimal_string[OF l] decimal_string_value)
qed

section \<open>Derivation paths (crypto.c)\<close>

text \<open>
  \<open>bip32_path_t\<close>. The fields are \<open>length\<close> and \<open>path\<close> in the source; they carry a
  prime here because both names are taken (by the list function and by the session's
  \<open>path\<close> field).
\<close>

definition MAX_BIP32_PATH_LEN :: nat where
  "MAX_BIP32_PATH_LEN = 10"

record bip32_path_t =
  length' :: uint8_t
  path' :: "uint32_t list"

definition bip32_path_zero :: bip32_path_t where
  "bip32_path_zero = \<lparr>length' = 0, path' = replicate MAX_BIP32_PATH_LEN 0\<rparr>"

definition hardened :: "uint32_t \<Rightarrow> bool" where
  "hardened c \<longleftrightarrow> c AND 0x80000000 \<noteq> 0"

definition crypto_validate_path :: "bip32_path_t \<Rightarrow> bool" where
  "crypto_validate_path p =
     (if length' p = 0 \<or> MAX_BIP32_PATH_LEN < unat (length' p) then False
      else list_all hardened (take (unat (length' p)) (path' p)))"

definition read_u32_be :: "uint8_t list \<Rightarrow> uint32_t" where
  "read_u32_be p =
     push_bit 24 (ucast (p ! 0)) OR push_bit 16 (ucast (p ! 1))
     OR push_bit 8 (ucast (p ! 2)) OR ucast (p ! 3)"

text \<open>
  \<open>crypto_parse_path\<close> returns the number of bytes consumed (0 on error) and the path
  structure as the call leaves it: untouched on error, otherwise with \<open>length\<close> set and
  the first \<open>length\<close> components overwritten.
\<close>

definition crypto_parse_path :: "uint8_t list \<Rightarrow> nat \<Rightarrow> bip32_path_t \<Rightarrow> nat \<times> bip32_path_t" where
  "crypto_parse_path dat data_len p =
     (if data_len < 1 then (0, p)
      else
        let len = dat ! 0 in
        if len = 0 \<or> MAX_BIP32_PATH_LEN < unat len then (0, p)
        else
          let required = 1 + unat len * 4 in
          if data_len < required then (0, p)
          else (required,
                p\<lparr>length' := len,
                  path' := map (\<lambda>i. read_u32_be (drop (1 + i * 4) dat)) [0..<unat len]
                           @ drop (unat len) (path' p)\<rparr>))"

section \<open>Platform primitives\<close>

text \<open>
  What the handlers call and the repository does not define: the BLAKE3 hasher behind
  \<open>sum_blake3.c\<close> (its state is the type variable \<open>'h\<close>, whose all-zero image is
  \<open>0\<close>), the two key primitives of \<open>crypto.c\<close> (device build: the secure element;
  host build: stubs), and the approval screen of \<open>tx_display.c\<close>. The key primitives
  read \<open>path->path[0..length)\<close> and return their success flag with the contents of their
  output buffer after the call.
\<close>

datatype ui_result_t = UI_RESULT_NONE | UI_RESULT_APPROVED | UI_RESULT_REJECTED

record 'h platform =
  blake3_hasher_init :: 'h
  blake3_hasher_update :: "'h \<Rightarrow> uint8_t list \<Rightarrow> 'h"
  blake3_hasher_finalize :: "'h \<Rightarrow> uint8_t list"
  crypto_derive_pubkey :: "uint32_t list \<Rightarrow> uint8_t list \<Rightarrow> bool \<times> uint8_t list"
  crypto_sign_hash :: "uint32_t list \<Rightarrow> uint8_t list \<Rightarrow> uint8_t list \<Rightarrow> bool \<times> uint8_t list"
  tx_display_show_approval :: "tx_display_t \<Rightarrow> ui_result_t"

definition path_components :: "bip32_path_t \<Rightarrow> uint32_t list" where
  "path_components p = take (unat (length' p)) (path' p)"

section \<open>Hash wrapper (crypto/sum_blake3.c)\<close>

record 'h sum_blake3_ctx_t =
  hasher :: 'h
  initialized' :: uint8_t

definition sum_blake3_ctx_zero :: "('h::zero) sum_blake3_ctx_t" where
  "sum_blake3_ctx_zero = \<lparr>hasher = 0, initialized' = 0\<rparr>"

definition sum_blake3_init :: "'h platform \<Rightarrow> 'h sum_blake3_ctx_t \<Rightarrow> 'h sum_blake3_ctx_t" where
  "sum_blake3_init env ctx = ctx\<lparr>hasher := blake3_hasher_init env, initialized' := 1\<rparr>"

definition sum_blake3_update ::
  "'h platform \<Rightarrow> 'h sum_blake3_ctx_t \<Rightarrow> uint8_t list \<Rightarrow> 'h sum_blake3_ctx_t" where
  "sum_blake3_update env ctx inp =
     (if initialized' ctx = 0 then ctx
      else ctx\<lparr>hasher := blake3_hasher_update env (hasher ctx) inp\<rparr>)"

definition sum_blake3_finalize32 ::
  "'h platform \<Rightarrow> 'h sum_blake3_ctx_t \<Rightarrow> uint8_t list \<Rightarrow> 'h sum_blake3_ctx_t \<times> uint8_t list" where
  "sum_blake3_finalize32 env ctx out32 =
     (if initialized' ctx = 0 then (ctx, out32)
      else (ctx\<lparr>initialized' := 0\<rparr>, blake3_hasher_finalize env (hasher ctx)))"

section \<open>Global state and APDUs (globals.h, apdu_handlers.h)\<close>

type_synonym uint16_t = "16 word"

definition P1_FIRST_CHUNK :: uint8_t where "P1_FIRST_CHUNK = 0x00"
definition P1_MORE_CHUNK :: uint8_t where "P1_MORE_CHUNK = 0x80"
definition P2_LAST_CHUNK :: uint8_t where "P2_LAST_CHUNK = 0x00"
definition P2_MORE_CHUNKS :: uint8_t where "P2_MORE_CHUNKS = 0x80"

definition SW_OK :: uint16_t where "SW_OK = 0x9000"
definition SW_USER_REJECTED :: uint16_t where "SW_USER_REJECTED = 0x6985"
definition SW_INVALID_PATH :: uint16_t where "SW_INVALID_PATH = 0x6A81"
definition SW_INVALID_P1P2 :: uint16_t where "SW_INVALID_P1P2 = 0x6B00"
definition SW_WRONG_LENGTH :: uint16_t where "SW_WRONG_LENGTH = 0x6700"
definition SW_INTERNAL_ERROR :: uint16_t where "SW_INTERNAL_ERROR = 0x6F00"
definition SW_TX_PARSE_ERROR :: uint16_t where "SW_TX_PARSE_ERROR = 0x6F01"
definition SW_TX_OVERFLOW :: uint16_t where "SW_TX_OVERFLOW = 0x6F02"
definition SW_SESSION_ERROR :: uint16_t where "SW_SESSION_ERROR = 0x6F03"
definition SW_TX_TOO_LARGE :: uint16_t where "SW_TX_TOO_LARGE = 0x6F04"

definition PUBKEY_LEN :: nat where "PUBKEY_LEN = 32"
definition SIGNATURE_LEN :: nat where "SIGNATURE_LEN = 64"
definition HASH_LEN :: nat where "HASH_LEN = 32"

record 'h sign_session_t =
  initialized :: bool
  path :: bip32_path_t
  tx_hash_ctx :: "'h sum_blake3_ctx_t"
  parser :: tx_parser_ctx_t
  total_received :: nat
  last_chunk_received :: bool

text \<open>
  \<open>G_app_state\<close>. The field \<open>ui_result\<close> belongs to the approval screen and is read by
  no handler; it is not part of the model.
\<close>

record 'h app_state_t =
  sign_session :: "'h sign_session_t"
  pubkey :: "uint8_t list"
  address_bytes :: "uint8_t list"
  address_str :: "char list"
  hash :: "uint8_t list"
  signature :: "uint8_t list"

record apdu_t =
  cla :: uint8_t
  ins :: uint8_t
  p1 :: uint8_t
  p2 :: uint8_t
  lc :: uint8_t
  data :: "uint8_t list"

text \<open>The all-zero image of the session, and \<open>reset_sign_session\<close>, which writes it.\<close>

definition sign_session_zero :: "('h::zero) sign_session_t" where
  "sign_session_zero =
     \<lparr>initialized = False, path = bip32_path_zero, tx_hash_ctx = sum_blake3_ctx_zero,
      parser = tx_parser_ctx_zero, total_received = 0, last_chunk_received = False\<rparr>"

definition reset_sign_session :: "('h::zero) app_state_t \<Rightarrow> 'h app_state_t" where
  "reset_sign_session s = s\<lparr>sign_session := sign_session_zero\<rparr>"

section \<open>Command handlers (apdu_handlers.c)\<close>

text \<open>
  A handler takes the platform, the global state, the APDU and the response cursor and
  returns the status word, the response and the global state. \<open>None\<close> is a null
  \<open>apdu\<close>, \<open>tx\<close> or \<open>*tx\<close>; \<open>Some out\<close> is a response buffer holding \<open>out\<close>, to which
  the handler appends. \<open>data\<close> holds at least \<open>lc\<close> bytes.
\<close>

definition handle_get_public_key ::
  "'h platform \<Rightarrow> 'h app_state_t \<Rightarrow> apdu_t option \<Rightarrow> uint8_t list option
     \<Rightarrow> uint16_t \<times> uint8_t list option \<times> 'h app_state_t" where
  "handle_get_public_key env s apdu tx =
     (case (apdu, tx) of
        (Some a, Some out) \<Rightarrow>
          if unat (lc a) < 1 then (SW_WRONG_LENGTH, tx, s)
          else
            let r = crypto_parse_path (data a) (unat (lc a)) bip32_path_zero in
            if fst r = 0 then (SW_INVALID_PATH, tx, s)
            else if \<not> crypto_validate_path (snd r) then (SW_INVALID_PATH, tx, s)
            else
              let k = crypto_derive_pubkey env (path_components (snd r)) (pubkey s);
                  s1 = s\<lparr>pubkey := snd k\<rparr>
              in if \<not> fst k then (SW_INTERNAL_ERROR, tx, s1)
                 else (SW_OK, Some (out @ take PUBKEY_LEN (pubkey s1)), s1)
      | _ \<Rightarrow> (SW_INTERNAL_ERROR, tx, s))"

text \<open>
  The tail shared by both arms of \<open>handle_sign_tx\<close>: the size cap, the hash update, the
  parser call and the byte count. \<open>Inl\<close> is an early return with its status.
\<close>

definition absorb_tx_bytes ::
  "('h::zero) platform \<Rightarrow> 'h app_state_t \<Rightarrow> uint8_t list \<Rightarrow> nat
     \<Rightarrow> (uint16_t \<times> 'h app_state_t) + 'h app_state_t" where
  "absorb_tx_bytes env s tx_data tx_len =
     (let sess = sign_session s in
      if MAX_TX_SIZE < total_received sess + tx_len
      then Inl (SW_TX_TOO_LARGE, reset_sign_session s)
      else
        let sess1 = sess\<lparr>tx_hash_ctx := sum_blake3_update env (tx_hash_ctx sess) tx_data\<rparr>;
            r = tx_parser_consume (parser sess1) tx_data;
            sess2 = sess1\<lparr>parser := fst r\<rparr>
        in if snd r \<noteq> tx_len \<or> tx_parser_has_error (parser sess2)
           then Inl (SW_TX_PARSE_ERROR, reset_sign_session (s\<lparr>sign_session := sess2\<rparr>))
           else Inr (s\<lparr>sign_session := sess2\<lparr>total_received := total_received sess2 + tx_len\<rparr>\<rparr>))"

text \<open>The first-chunk arm.\<close>

definition sign_tx_first ::
  "('h::zero) platform \<Rightarrow> 'h app_state_t \<Rightarrow> apdu_t \<Rightarrow> bool
     \<Rightarrow> (uint16_t \<times> 'h app_state_t) + 'h app_state_t" where
  "sign_tx_first env s a is_more =
     (let s0 = reset_sign_session s in
      if unat (lc a) < 1 then Inl (SW_WRONG_LENGTH, s0)
      else
        let r = crypto_parse_path (data a) (unat (lc a)) (path (sign_session s0));
            path_bytes = fst r;
            s1 = s0\<lparr>sign_session := (sign_session s0)\<lparr>path := snd r\<rparr>\<rparr>
        in if path_bytes = 0 then Inl (SW_INVALID_PATH, reset_sign_session s1)
           else if \<not> crypto_validate_path (path (sign_session s1))
           then Inl (SW_INVALID_PATH, reset_sign_session s1)
           else
             let s2 = s1\<lparr>sign_session := (sign_session s1)
                        \<lparr>tx_hash_ctx := sum_blake3_init env (tx_hash_ctx (sign_session s1)),
                         parser := tx_parser_init,
                         initialized := True,
                         total_received := 0,
                         last_chunk_received := \<not> is_more\<rparr>\<rparr>;
                 tx_len = unat (lc a) - path_bytes;
                 tx_data = take tx_len (drop path_bytes (data a))
             in if 0 < tx_len then absorb_tx_bytes env s2 tx_data tx_len else Inr s2)"

text \<open>The continuation arm.\<close>

definition sign_tx_more ::
  "('h::zero) platform \<Rightarrow> 'h app_state_t \<Rightarrow> apdu_t \<Rightarrow> bool
     \<Rightarrow> (uint16_t \<times> 'h app_state_t) + 'h app_state_t" where
  "sign_tx_more env s a is_more =
     (if \<not> initialized (sign_session s) then Inl (SW_SESSION_ERROR, s)
      else if last_chunk_received (sign_session s)
      then Inl (SW_SESSION_ERROR, reset_sign_session s)
      else
        let s1 = s\<lparr>sign_session := (sign_session s)\<lparr>last_chunk_received := \<not> is_more\<rparr>\<rparr> in
        if 0 < unat (lc a)
        then absorb_tx_bytes env s1 (take (unat (lc a)) (data a)) (unat (lc a))
        else Inr s1)"

text \<open>
  The last-chunk block up to the approval screen: \<open>Inl\<close> is an early return, \<open>Inr\<close>
  carries the display strings handed to \<open>tx_display_show_approval\<close>.
  (\<open>tx_parser_get_parsed\<close> returns null only for a null context.)
\<close>

definition sign_tx_prepare ::
  "('h::zero) app_state_t \<Rightarrow> (uint16_t \<times> 'h app_state_t) + tx_display_t" where
  "sign_tx_prepare s =
     (if \<not> tx_parser_is_done (parser (sign_session s))
      then Inl (SW_TX_PARSE_ERROR, reset_sign_session s)
      else
        let parsed_tx = tx_parser_get_parsed (parser (sign_session s));
            r = tx_display_format parsed_tx
        in if \<not> fst r then Inl (SW_INTERNAL_ERROR, reset_sign_session s)
           else if fee_overflow parsed_tx then Inl (SW_TX_OVERFLOW, reset_sign_session s)
           else Inr (snd r))"

text \<open>The last-chunk block after the user has approved: finalize, sign, respond, clean up.\<close>

definition sign_tx_approved ::
  "('h::zero) platform \<Rightarrow> 'h app_state_t \<Rightarrow> uint8_t list
     \<Rightarrow> uint16_t \<times> uint8_t list option \<times> 'h app_state_t" where
  "sign_tx_approved env s out =
     (let f = sum_blake3_finalize32 env (tx_hash_ctx (sign_session s)) (hash s);
          s1 = s\<lparr>sign_session := (sign_session s)\<lparr>tx_hash_ctx := fst f\<rparr>, hash := snd f\<rparr>;
          g = crypto_sign_hash env (path_components (path (sign_session s1))) (hash s1) (signature s1);
          s2 = s1\<lparr>signature := snd g\<rparr>
      in if \<not> fst g
         then (SW_INTERNAL_ERROR, Some out,
               reset_sign_session (s2\<lparr>hash := replicate HASH_LEN 0\<rparr>))
         else (SW_OK, Some (out @ take SIGNATURE_LEN (signature s2)),
               reset_sign_session
                 (s2\<lparr>hash := replicate HASH_LEN 0, signature := replicate SIGNATURE_LEN 0\<rparr>)))"

definition handle_sign_tx ::
  "('h::zero) platform \<Rightarrow> 'h app_state_t \<Rightarrow> apdu_t option \<Rightarrow> uint8_t list option
     \<Rightarrow> uint16_t \<times> uint8_t list option \<times> 'h app_state_t" where
  "handle_sign_tx env s apdu tx =
     (case (apdu, tx) of
        (Some a, Some out) \<Rightarrow>
          let is_first = (p1 a = P1_FIRST_CHUNK);
              is_more = (p2 a = P2_MORE_CHUNKS)
          in if p1 a \<noteq> P1_FIRST_CHUNK \<and> p1 a \<noteq> P1_MORE_CHUNK
             then (SW_INVALID_P1P2, tx, reset_sign_session s)
             else if p2 a \<noteq> P2_LAST_CHUNK \<and> p2 a \<noteq> P2_MORE_CHUNKS
             then (SW_INVALID_P1P2, tx, reset_sign_session s)
             else
               case (if is_first then sign_tx_first env s a is_more
                     else sign_tx_more env s a is_more) of
                 Inl (sw, s1) \<Rightarrow> (sw, tx, s1)
               | Inr s1 \<Rightarrow>
                   if \<not> is_more then
                     (case sign_tx_prepare s1 of
                        Inl (sw, s2) \<Rightarrow> (sw, tx, s2)
                      | Inr display \<Rightarrow>
                          if tx_display_show_approval env display \<noteq> UI_RESULT_APPROVED
                          then (SW_USER_REJECTED, tx, reset_sign_session s1)
                          else sign_tx_approved env s1 out)
                   else (SW_OK, tx, s1)
      | _ \<Rightarrow> (SW_INTERNAL_ERROR, tx, s))"

text \<open>
  The display strings a call of \<open>handle_sign_tx\<close> hands to the approval screen, when the
  call gets that far.
\<close>

definition approval_request ::
  "('h::zero) platform \<Rightarrow> 'h app_state_t \<Rightarrow> apdu_t \<Rightarrow> tx_display_t option" where
  "approval_request env s a =
     (if (p1 a \<noteq> P1_FIRST_CHUNK \<and> p1 a \<noteq> P1_MORE_CHUNK)
         \<or> (p2 a \<noteq> P2_LAST_CHUNK \<and> p2 a \<noteq> P2_MORE_CHUNKS) \<or> p2 a = P2_MORE_CHUNKS
      then None
      else
        case (if p1 a = P1_FIRST_CHUNK then sign_tx_first env s a False
              else sign_tx_more env s a False) of
          Inl _ \<Rightarrow> None
        | Inr s1 \<Rightarrow> (case sign_tx_prepare s1 of Inl _ \<Rightarrow> None | Inr display \<Rightarrow> Some display))"

text \<open>
  The record a call of \<open>handle_sign_tx\<close> hands to \<open>tx_display_format\<close>, and through it
  to \<open>format_fee\<close>, when the call gets that far: the last chunk has been absorbed and
  the parser is done.
\<close>

definition formatted_record ::
  "('h::zero) platform \<Rightarrow> 'h app_state_t \<Rightarrow> apdu_t \<Rightarrow> tx_parsed_t option" where
  "formatted_record env s a =
     (if (p1 a \<noteq> P1_FIRST_CHUNK \<and> p1 a \<noteq> P1_MORE_CHUNK)
         \<or> (p2 a \<noteq> P2_LAST_CHUNK \<and> p2 a \<noteq> P2_MORE_CHUNKS) \<or> p2 a = P2_MORE_CHUNKS
      then None
      else
        case (if p1 a = P1_FIRST_CHUNK then sign_tx_first env s a False
              else sign_tx_more env s a False) of
          Inl _ \<Rightarrow> None
        | Inr s1 \<Rightarrow>
            if \<not> tx_parser_is_done (parser (sign_session s1)) then None
            else Some (tx_parser_get_parsed (parser (sign_session s1))))"

text \<open>
  The states the program can be in when a command arrives: \<open>app_main\<close> resets the
  session before the first command, \<open>handle_sign_tx\<close> is the only handler that writes
  the session, and the other handlers write only the scratch buffers.
\<close>

inductive reachable :: "('h::zero) app_state_t \<Rightarrow> bool" where
  startup: "reachable (reset_sign_session s)"
| sign_tx: "reachable s \<Longrightarrow> handle_sign_tx env s apdu tx = (sw, tx1, s1) \<Longrightarrow> reachable s1"
| scratch: "reachable s \<Longrightarrow> sign_session s1 = sign_session s \<Longrightarrow> reachable s1"

text \<open>
  The host build of the primitives (the \<open>#else\<close> branches of \<open>crypto.c\<close> and
  \<open>tx_display.c\<close>) with a decision for the approval screen, over a stand-in hasher that
  counts the bytes it has absorbed.
\<close>

definition host_platform :: "ui_result_t \<Rightarrow> nat platform" where
  "host_platform decision =
     \<lparr>blake3_hasher_init = 1,
      blake3_hasher_update = (\<lambda>h inp. h + length inp),
      blake3_hasher_finalize = (\<lambda>h. replicate 32 (of_nat h)),
      crypto_derive_pubkey = (\<lambda>p buf. (True, replicate 32 0x42)),
      crypto_sign_hash = (\<lambda>p h buf. (True, replicate 64 0xAA)),
      tx_display_show_approval = (\<lambda>d. decision)\<rparr>"

definition app_state_zero :: "nat app_state_t" where
  "app_state_zero =
     \<lparr>sign_session = sign_session_zero, pubkey = replicate 32 0, address_bytes = replicate 20 0,
      address_str = replicate 35 NUL, hash = replicate 32 0, signature = replicate 64 0\<rparr>"

text \<open>The derivation path of scenario S1 in its wire form, and APDUs built from it.\<close>

definition path_S1 :: "uint8_t list" where
  "path_S1 = [5, 0x80, 0, 0, 0x2C, 0x80, 0, 0x01, 0xF5, 0x80, 0, 0, 0, 0x80, 0, 0, 0, 0x80, 0, 0, 0]"

definition sign_apdu :: "uint8_t \<Rightarrow> uint8_t \<Rightarrow> uint8_t list \<Rightarrow> apdu_t" where
  "sign_apdu b1 b2 payload =
     \<lparr>cla = 0xE0, ins = 0x04, p1 = b1, p2 = b2, lc = of_nat (length payload), data = payload\<rparr>"


definition pubkey_apdu :: "uint8_t list \<Rightarrow> apdu_t" where
  "pubkey_apdu payload =
     \<lparr>cla = 0xE0, ins = 0x02, p1 = 0, p2 = 0, lc = of_nat (length payload), data = payload\<rparr>"

text \<open>
  Scenario S1 as one APDU (path, then the 82-byte transfer), the path and the transaction
  it decodes to, the strings shown for it, and the state after its path has arrived in a
  first chunk with more chunks announced.
\<close>

definition bip_S1 :: bip32_path_t where
  "bip_S1 = \<lparr>length' = 5,
      path' = [0x8000002C, 0x800001F5, 0x80000000, 0x80000000, 0x80000000, 0, 0, 0, 0, 0]\<rparr>"

definition parsed_S1 :: tx_parsed_t where
  "parsed_S1 = \<lparr>version = 1, chain_id = 1, sender = replicate 20 0x11, nonce = 42,
      gas_price = 1000, gas_limit = 21000, tx_type = 0, recipient = replicate 20 0x22,
      amount = 1000000, fee_overflow = False, fee_low = 21000000, fee_high = 0\<rparr>"

definition display_S1 :: tx_display_t where
  "display_S1 = snd (tx_display_format parsed_S1)"

definition apdu_S1 :: apdu_t where
  "apdu_S1 = sign_apdu 0x00 0x00 (path_S1 @ transfer_S1)"

definition streaming_S1 :: "nat app_state_t" where
  "streaming_S1 = app_state_zero\<lparr>sign_session :=
      \<lparr>initialized = True, path = bip_S1,
       tx_hash_ctx = \<lparr>hasher = 1, initialized' = 1\<rparr>,
       parser = tx_parser_init, total_received = 0, last_chunk_received = False\<rparr>\<rparr>"

text \<open>
  The transfer of scenario S1 with \<open>gas_price = 2^63\<close> and \<open>gas_limit = 4\<close>, whose fee
  is \<open>2^65\<close>.
\<close>

definition transfer_overflow :: "uint8_t list" where
  "transfer_overflow =
     [1] @ [1, 0, 0, 0, 0, 0, 0, 0] @ replicate 20 0x11 @ [42, 0, 0, 0, 0, 0, 0, 0]
     @ [0, 0, 0, 0, 0, 0, 0, 0x80] @ [4, 0, 0, 0, 0, 0, 0, 0] @ [0]
     @ replicate 20 0x22 @ [0x40, 0x42, 0x0F, 0, 0, 0, 0, 0]"

section \<open>The signing session\<close>

subsection \<open>What each phase of \<open>handle_sign_tx\<close> returns\<close>

lemma reset_idem [simp]: "reset_sign_session (reset_sign_session s) = reset_sign_session s"
  by (simp add: reset_sign_session_def)

lemma reset_session_upd [simp]:
  "reset_sign_session (s\<lparr>sign_session := x\<rparr>) = reset_sign_session s"
  by (simp add: reset_sign_session_def)

lemma reset_session [simp]: "sign_session (reset_sign_session s) = sign_session_zero"
  by (simp add: reset_sign_session_def)

lemma zero_not_initialized [simp]: "\<not> initialized sign_session_zero"
  by (simp add: sign_session_zero_def)

lemma sw_distinct [simp]:
  "SW_TX_TOO_LARGE \<noteq> SW_OK" "SW_TX_PARSE_ERROR \<noteq> SW_OK" "SW_WRONG_LENGTH \<noteq> SW_OK"
  "SW_INVALID_PATH \<noteq> SW_OK" "SW_SESSION_ERROR \<noteq> SW_OK" "SW_INTERNAL_ERROR \<noteq> SW_OK"
  "SW_TX_OVERFLOW \<noteq> SW_OK" "SW_USER_REJECTED \<noteq> SW_OK" "SW_INVALID_P1P2 \<noteq> SW_OK"
  "SW_TX_TOO_LARGE \<noteq> SW_SESSION_ERROR" "SW_TX_PARSE_ERROR \<noteq> SW_SESSION_ERROR"
  "SW_WRONG_LENGTH \<noteq> SW_SESSION_ERROR" "SW_INVALID_PATH \<noteq> SW_SESSION_ERROR"
  "SW_INTERNAL_ERROR \<noteq> SW_SESSION_ERROR" "SW_TX_OVERFLOW \<noteq> SW_SESSION_ERROR"
  "SW_USER_REJECTED \<noteq> SW_SESSION_ERROR" "SW_INVALID_P1P2 \<noteq> SW_SESSION_ERROR"
  "SW_OK \<noteq> SW_SESSION_ERROR"
  by (simp_all add: SW_OK_def SW_USER_REJECTED_def SW_INVALID_PATH_def SW_INVALID_P1P2_def
      SW_WRONG_LENGTH_def SW_INTERNAL_ERROR_def SW_TX_PARSE_ERROR_def SW_TX_OVERFLOW_def
      SW_SESSION_ERROR_def SW_TX_TOO_LARGE_def)

lemma absorb_Inl:
  "absorb_tx_bytes env s d n = Inl (sw, s1) \<Longrightarrow>
     sw \<noteq> SW_OK \<and> sw \<noteq> SW_SESSION_ERROR \<and> s1 = reset_sign_session s"
  by (auto simp add: absorb_tx_bytes_def Let_def split: if_splits)

lemma absorb_Inr:
  "absorb_tx_bytes env s d n = Inr s1 \<Longrightarrow>
     initialized (sign_session s1) = initialized (sign_session s)
     \<and> reset_sign_session s1 = reset_sign_session s"
  by (auto simp add: absorb_tx_bytes_def Let_def split: if_splits)

lemma first_Inl:
  "sign_tx_first env s a m = Inl (sw, s1) \<Longrightarrow>
     sw \<noteq> SW_OK \<and> sw \<noteq> SW_SESSION_ERROR \<and> s1 = reset_sign_session s"
  by (auto simp add: sign_tx_first_def Let_def split: if_splits dest!: absorb_Inl)

lemma first_Inr:
  "sign_tx_first env s a m = Inr s1 \<Longrightarrow>
     initialized (sign_session s1) \<and> reset_sign_session s1 = reset_sign_session s"
  by (auto simp add: sign_tx_first_def Let_def split: if_splits dest!: absorb_Inr)

lemma more_Inl:
  "sign_tx_more env s a m = Inl (sw, s1) \<Longrightarrow>
     sw \<noteq> SW_OK \<and> (s1 = reset_sign_session s \<or> s1 = s \<and> \<not> initialized (sign_session s))"
  by (auto simp add: sign_tx_more_def Let_def split: if_splits dest!: absorb_Inl)

lemma more_Inr:
  "sign_tx_more env s a m = Inr s1 \<Longrightarrow>
     initialized (sign_session s1) \<and> reset_sign_session s1 = reset_sign_session s"
  by (auto simp add: sign_tx_more_def Let_def split: if_splits dest!: absorb_Inr)

lemma prepare_Inl:
  "sign_tx_prepare s = Inl (sw, s1) \<Longrightarrow>
     sw \<noteq> SW_OK \<and> sw \<noteq> SW_SESSION_ERROR \<and> s1 = reset_sign_session s"
  by (auto simp add: sign_tx_prepare_def Let_def split: if_splits)

lemma approved_session:
  "sign_session (snd (snd (sign_tx_approved env s out))) = sign_session_zero"
  by (simp add: sign_tx_approved_def Let_def)

lemma approved_status:
  "fst (sign_tx_approved env s out) \<noteq> SW_SESSION_ERROR"
  by (simp add: sign_tx_approved_def Let_def)

text \<open>
  The two arms of the handler under one name, and the check of P1 and P2 that precedes
  them.
\<close>

definition sign_tx_arm ::
  "('h::zero) platform \<Rightarrow> 'h app_state_t \<Rightarrow> apdu_t \<Rightarrow> (uint16_t \<times> 'h app_state_t) + 'h app_state_t" where
  "sign_tx_arm env s a =
     (if p1 a = P1_FIRST_CHUNK then sign_tx_first env s a (p2 a = P2_MORE_CHUNKS)
      else sign_tx_more env s a (p2 a = P2_MORE_CHUNKS))"

definition p1p2_invalid :: "apdu_t \<Rightarrow> bool" where
  "p1p2_invalid a \<longleftrightarrow>
     (p1 a \<noteq> P1_FIRST_CHUNK \<and> p1 a \<noteq> P1_MORE_CHUNK)
     \<or> (p2 a \<noteq> P2_LAST_CHUNK \<and> p2 a \<noteq> P2_MORE_CHUNKS)"

lemma handle_invalid:
  "p1p2_invalid a \<Longrightarrow>
     handle_sign_tx env s (Some a) (Some out) = (SW_INVALID_P1P2, Some out, reset_sign_session s)"
  by (auto simp add: handle_sign_tx_def p1p2_invalid_def Let_def)

lemma handle_arm_Inl:
  "\<not> p1p2_invalid a \<Longrightarrow> sign_tx_arm env s a = Inl (sw, s1) \<Longrightarrow>
     handle_sign_tx env s (Some a) (Some out) = (sw, Some out, s1)"
  by (auto simp add: handle_sign_tx_def p1p2_invalid_def sign_tx_arm_def Let_def)

lemma handle_arm_more:
  "\<not> p1p2_invalid a \<Longrightarrow> sign_tx_arm env s a = Inr s1 \<Longrightarrow> p2 a = P2_MORE_CHUNKS \<Longrightarrow>
     handle_sign_tx env s (Some a) (Some out) = (SW_OK, Some out, s1)"
  by (auto simp add: handle_sign_tx_def p1p2_invalid_def sign_tx_arm_def Let_def)

lemma handle_prepare_Inl:
  "\<not> p1p2_invalid a \<Longrightarrow> sign_tx_arm env s a = Inr s1 \<Longrightarrow> p2 a \<noteq> P2_MORE_CHUNKS \<Longrightarrow>
   sign_tx_prepare s1 = Inl (sw, s2) \<Longrightarrow>
     handle_sign_tx env s (Some a) (Some out) = (sw, Some out, s2)"
  by (auto simp add: handle_sign_tx_def p1p2_invalid_def sign_tx_arm_def Let_def)

lemma handle_rejected:
  "\<not> p1p2_invalid a \<Longrightarrow> sign_tx_arm env s a = Inr s1 \<Longrightarrow> p2 a \<noteq> P2_MORE_CHUNKS \<Longrightarrow>
   sign_tx_prepare s1 = Inr d \<Longrightarrow> tx_display_show_approval env d \<noteq> UI_RESULT_APPROVED \<Longrightarrow>
     handle_sign_tx env s (Some a) (Some out) = (SW_USER_REJECTED, Some out, reset_sign_session s1)"
  by (auto simp add: handle_sign_tx_def p1p2_invalid_def sign_tx_arm_def Let_def)

lemma handle_approved:
  "\<not> p1p2_invalid a \<Longrightarrow> sign_tx_arm env s a = Inr s1 \<Longrightarrow> p2 a \<noteq> P2_MORE_CHUNKS \<Longrightarrow>
   sign_tx_prepare s1 = Inr d \<Longrightarrow> tx_display_show_approval env d = UI_RESULT_APPROVED \<Longrightarrow>
     handle_sign_tx env s (Some a) (Some out) = sign_tx_approved env s1 out"
  by (auto simp add: handle_sign_tx_def p1p2_invalid_def sign_tx_arm_def Let_def)

subsection \<open>The session invariant\<close>

text \<open>
  In every state the program reaches, a session that is not initialized is all-zero: the
  exit of the continuation arm that returns without a reset is taken only then.
\<close>

definition session_inv :: "('h::zero) app_state_t \<Rightarrow> bool" where
  "session_inv s \<longleftrightarrow> initialized (sign_session s) \<or> sign_session s = sign_session_zero"

lemma arm_Inl:
  assumes "session_inv s"
    and "(if p1 a = P1_FIRST_CHUNK then sign_tx_first env s a m else sign_tx_more env s a m)
           = Inl (sw, s1)"
  shows "sw \<noteq> SW_OK \<and> sign_session s1 = sign_session_zero"
proof (cases "p1 a = P1_FIRST_CHUNK")
  case True
  then show ?thesis using assms(2) first_Inl[of env s a m sw s1] by simp
next
  case False
  then have "sign_tx_more env s a m = Inl (sw, s1)" using assms(2) by simp
  then have "sw \<noteq> SW_OK" and "s1 = reset_sign_session s \<or> s1 = s \<and> \<not> initialized (sign_session s)"
    using more_Inl[of env s a m sw s1] by simp_all
  then show ?thesis using assms(1) by (auto simp add: session_inv_def)
qed

lemma arm_Inr:
  assumes "(if p1 a = P1_FIRST_CHUNK then sign_tx_first env s a m else sign_tx_more env s a m)
           = Inr s1"
  shows "initialized (sign_session s1) \<and> reset_sign_session s1 = reset_sign_session s"
  using assms first_Inr[of env s a m s1] more_Inr[of env s a m s1]
  by (cases "p1 a = P1_FIRST_CHUNK") simp_all

lemma arm_Inl':
  "session_inv s \<Longrightarrow> sign_tx_arm env s a = Inl (sw, s1) \<Longrightarrow>
     sw \<noteq> SW_OK \<and> sign_session s1 = sign_session_zero"
  unfolding sign_tx_arm_def by (rule arm_Inl)

lemma arm_Inr':
  "sign_tx_arm env s a = Inr s1 \<Longrightarrow>
     initialized (sign_session s1) \<and> reset_sign_session s1 = reset_sign_session s"
  unfolding sign_tx_arm_def by (rule arm_Inr)

lemma sign_outcome:
  assumes inv: "session_inv s"
    and run: "handle_sign_tx env s (Some a) (Some out) = (sw, tx1, s1)"
  shows "(sw = SW_OK \<and> p2 a = P2_MORE_CHUNKS \<and> initialized (sign_session s1))
       \<or> (\<not> (sw = SW_OK \<and> p2 a = P2_MORE_CHUNKS) \<and> sign_session s1 = sign_session_zero)"
proof (cases "p1p2_invalid a")
  case True
  then show ?thesis using run by (auto simp add: handle_invalid)
next
  case valid: False
  show ?thesis
  proof (cases "sign_tx_arm env s a")
    case (Inl e)
    obtain sw' s' where e: "e = (sw', s')" by (cases e)
    have "sw = sw' \<and> s1 = s'"
      using run handle_arm_Inl[OF valid, of env s sw' s' out] Inl e by simp
    then show ?thesis using arm_Inl'[OF inv, of env a sw' s'] Inl e by simp
  next
    case (Inr s')
    have a': "initialized (sign_session s')" using arm_Inr'[OF Inr] by simp
    show ?thesis
    proof (cases "p2 a = P2_MORE_CHUNKS")
      case True
      then show ?thesis using run handle_arm_more[OF valid Inr True, of out] a' by simp
    next
      case last: False
      have "sign_session s1 = sign_session_zero"
      proof (cases "sign_tx_prepare s'")
        case (Inl e)
        obtain sw2 s2 where e: "e = (sw2, s2)" by (cases e)
        have "s1 = s2"
          using run handle_prepare_Inl[OF valid Inr last, of sw2 s2 out] Inl e by simp
        then show ?thesis using prepare_Inl[of s' sw2 s2] Inl e by simp
      next
        case prep: (Inr d)
        show ?thesis
        proof (cases "tx_display_show_approval env d = UI_RESULT_APPROVED")
          case True
          then have "s1 = snd (snd (sign_tx_approved env s' out))"
            using run handle_approved[OF valid Inr last prep True, of out] by simp
          then show ?thesis by (simp add: approved_session)
        next
          case False
          then show ?thesis
            using run handle_rejected[OF valid Inr last prep False, of out] by auto
        qed
      qed
      then show ?thesis using last by simp
    qed
  qed
qed

lemma sign_preserves_inv:
  assumes "session_inv s" and "handle_sign_tx env s apdu tx = (sw, tx1, s1)"
  shows "session_inv s1"
proof (cases "\<exists>a out. apdu = Some a \<and> tx = Some out")
  case True
  then obtain a out where "apdu = Some a" "tx = Some out" by blast
  then show ?thesis
    using sign_outcome[OF assms(1), of env a out sw tx1 s1] assms(2)
    by (auto simp add: session_inv_def)
next
  case False
  then have "s1 = s"
    using assms(2) by (auto simp add: handle_sign_tx_def split: option.splits)
  then show ?thesis using assms(1) by simp
qed

lemma reachable_inv: "reachable s \<Longrightarrow> session_inv s"
proof (induction rule: reachable.induct)
  case (startup s)
  then show ?case by (simp add: session_inv_def)
next
  case (sign_tx s env apdu tx sw tx1 s1)
  then show ?case using sign_preserves_inv by blast
next
  case (scratch s s1)
  then show ?case by (simp add: session_inv_def)
qed

text \<open>
  The guard against a null \<open>apdu\<close>, \<open>tx\<close> or \<open>*tx\<close> returns before anything is written.
  \<open>apdu_dispatch\<close> passes the address of its own APDU and the response cursor of
  \<open>app_main\<close>, so the statements below are about calls in which both are present.
\<close>

lemma handle_sign_tx_null_guard:
  "handle_sign_tx env s None tx = (SW_INTERNAL_ERROR, tx, s)"
  "handle_sign_tx env s apdu None = (SW_INTERNAL_ERROR, None, s)"
  by (simp_all add: handle_sign_tx_def split: option.splits)

subsection \<open>Scenario S1, evaluated\<close>

lemma parse_path_S1: "crypto_parse_path (path_S1 @ transfer_S1) 103 bip32_path_zero = (21, bip_S1)"
  by code_simp

lemma validate_path_S1: "crypto_validate_path bip_S1"
  by code_simp

lemma consumed_S1: "snd (tx_parser_consume tx_parser_init transfer_S1) = 82"
  by code_simp

lemma state_S1: "state (fst (tx_parser_consume tx_parser_init transfer_S1)) = TX_PARSE_STATE_DONE"
  by code_simp

lemma fields_S1: "parsed (fst (tx_parser_consume tx_parser_init transfer_S1)) = parsed_S1"
  by code_simp

lemma amount_S1_fits: "fst (format_u64_decimal 1000000 (replicate 32 NUL)) \<noteq> 0"
  by code_simp

lemma fee_S1_fits: "fst (format_fee 21000000 0 False (replicate 40 NUL)) \<noteq> 0"
  by code_simp

lemma chain_id_S1_fits: "fst (format_u64_decimal 1 (replicate 24 NUL)) \<noteq> 0"
  by code_simp

lemma display_S1_ok: "tx_display_format parsed_S1 = (True, display_S1)"
proof -
  have a: "fst (format_address (replicate 20 0x22) (replicate 35 NUL)) \<noteq> 0"
    by (rule format_address_ok) (simp_all add: ADDRESS_BASE58_MAX_LEN_def)
  have b: "fst (format_address (replicate 20 0x11) (replicate 35 NUL)) \<noteq> 0"
    by (rule format_address_ok) (simp_all add: ADDRESS_BASE58_MAX_LEN_def)
  have c: "fst (format_u64_decimal 42 (replicate 32 NUL)) \<noteq> 0" by code_simp
  have "fst (tx_display_format parsed_S1)"
    using a b c amount_S1_fits fee_S1_fits chain_id_S1_fits
    by (simp add: tx_display_format_def Let_def parsed_S1_def tx_display_zero_def
        TX_DISPLAY_AMOUNT_MAX_LEN_def TX_DISPLAY_FEE_MAX_LEN_def TX_DISPLAY_CHAIN_ID_MAX_LEN_def
        ADDRESS_BASE58_MAX_LEN_def)
  then show ?thesis by (simp add: display_S1_def prod_eq_iff)
qed

lemma len_S1: "length path_S1 = 21" "length transfer_S1 = 82"
  by (simp_all add: path_S1_def transfer_S1_def)

lemma stream_S1:
  "handle_sign_tx (host_platform u) app_state_zero (Some (sign_apdu 0x00 0x80 path_S1)) (Some [])
     = (SW_OK, Some [], streaming_S1)"
  by code_simp

lemma bad_more:
  "handle_sign_tx (host_platform u) streaming_S1 (Some (sign_apdu 0x80 0x80 [2])) (Some [])
     = (SW_TX_PARSE_ERROR, Some [], app_state_zero)"
  by code_simp

lemma restart:
  "handle_sign_tx (host_platform u) streaming_S1 (Some (sign_apdu 0x00 0x80 path_S1)) (Some [])
     = (SW_OK, Some [], streaming_S1)"
  by code_simp

lemma parse_S1: "tx_parser_consume tx_parser_init transfer_S1
    = (fst (tx_parser_consume tx_parser_init transfer_S1), 82)"
  using consumed_S1 by (simp add: prod_eq_iff)

lemma first_S1:
  "\<exists>s1. sign_tx_first (host_platform u) app_state_zero apdu_S1 False = Inr s1
      \<and> parser (sign_session s1) = fst (tx_parser_consume tx_parser_init transfer_S1)"
proof -
  have lc: "unat (lc apdu_S1) = 103" by (simp add: apdu_S1_def sign_apdu_def len_S1)
  have dat: "data apdu_S1 = path_S1 @ transfer_S1" by (simp add: apdu_S1_def sign_apdu_def)
  have z: "path (sign_session (reset_sign_session app_state_zero)) = bip32_path_zero"
    by (simp add: sign_session_zero_def)
  have tk: "take 82 (drop 21 (path_S1 @ transfer_S1)) = transfer_S1" by (simp add: len_S1)
  have ne: "\<not> tx_parser_has_error (fst (tx_parser_consume tx_parser_init transfer_S1))"
    by (simp add: tx_parser_has_error_def state_S1)
  show ?thesis
    unfolding sign_tx_first_def lc dat z parse_path_S1 Let_def fst_conv snd_conv
    by (simp add: validate_path_S1 len_S1 absorb_tx_bytes_def Let_def consumed_S1 ne MAX_TX_SIZE_def)
qed

lemma request_S1:
  "approval_request (host_platform u) app_state_zero apdu_S1 = Some display_S1"
proof -
  obtain s1 where f: "sign_tx_first (host_platform u) app_state_zero apdu_S1 False = Inr s1"
    and p: "parser (sign_session s1) = fst (tx_parser_consume tx_parser_init transfer_S1)"
    using first_S1 by blast
  have prep: "sign_tx_prepare s1 = Inr display_S1"
    by (simp add: sign_tx_prepare_def p tx_parser_is_done_def state_S1 tx_parser_get_parsed_def fields_S1
        display_S1_ok Let_def parsed_S1_def[THEN arg_cong, of fee_overflow])
  show ?thesis
    by (simp add: approval_request_def apdu_S1_def[THEN arg_cong, of p1]
        apdu_S1_def[THEN arg_cong, of p2] sign_apdu_def P1_FIRST_CHUNK_def P2_LAST_CHUNK_def
        P2_MORE_CHUNKS_def P1_MORE_CHUNK_def f prep)
qed

lemma startup_zero: "reachable app_state_zero"
proof -
  have "app_state_zero = reset_sign_session app_state_zero"
    by (simp add: reset_sign_session_def app_state_zero_def)
  then show ?thesis using reachable.startup[of app_state_zero] by simp
qed

lemma streaming_reachable: "reachable streaming_S1"
  using startup_zero stream_S1[of UI_RESULT_NONE] by (rule reachable.sign_tx)

subsection \<open>Error exits and the session flag\<close>

text \<open>
  C3. In every state the program can reach, a call of \<open>handle_sign_tx\<close> on an APDU
  that returns a status other than \<open>0x9000\<close> leaves the session equal to its all-zero
  image: the derivation path, the parser context with its scratch, and the hash context
  are zero after the return.
\<close>

theorem sign_tx_error_zeroizes:
  assumes "reachable s"
    and "handle_sign_tx env s (Some a) (Some out) = (sw, tx1, s1)"
    and "sw \<noteq> SW_OK"
  shows "sign_session s1 = sign_session_zero
     \<and> path (sign_session s1) = bip32_path_zero
     \<and> parser (sign_session s1) = tx_parser_ctx_zero
     \<and> scratch (parser (sign_session s1)) = replicate 32 0
     \<and> tx_hash_ctx (sign_session s1) = sum_blake3_ctx_zero"
proof -
  have "sign_session s1 = sign_session_zero"
    using sign_outcome[OF reachable_inv[OF assms(1)] assms(2)] assms(3) by auto
  then show ?thesis by (simp add: sign_session_zero_def tx_parser_ctx_zero_def)
qed

theorem sign_tx_error_zeroizes_witness:
  "reachable streaming_S1
   \<and> initialized (sign_session streaming_S1)
   \<and> handle_sign_tx (host_platform UI_RESULT_NONE) streaming_S1
        (Some (sign_apdu 0x80 0x80 [2])) (Some []) = (SW_TX_PARSE_ERROR, Some [], app_state_zero)
   \<and> SW_TX_PARSE_ERROR \<noteq> SW_OK
   \<and> sign_session app_state_zero = sign_session_zero
   \<and> path (sign_session app_state_zero) = bip32_path_zero
   \<and> parser (sign_session app_state_zero) = tx_parser_ctx_zero
   \<and> scratch (parser (sign_session app_state_zero)) = replicate 32 0
   \<and> tx_hash_ctx (sign_session app_state_zero) = sum_blake3_ctx_zero"
proof -
  have i: "initialized (sign_session streaming_S1)" by (simp add: streaming_S1_def)
  have n: "SW_TX_PARSE_ERROR \<noteq> SW_OK" by simp
  show ?thesis
    using sign_tx_error_zeroizes[OF streaming_reachable bad_more[of UI_RESULT_NONE] n]
      streaming_reachable bad_more[of UI_RESULT_NONE] i n
    by blast
qed

text \<open>
  C9. After a call of \<open>handle_sign_tx\<close> on an APDU, from a state the program can
  reach, the \<open>initialized\<close> flag of the session is set if and only if the call returned
  \<open>0x9000\<close> for a chunk whose P2 is \<open>0x80\<close>; on every other return the whole session is
  zero.
\<close>

theorem sign_tx_session_flag:
  assumes "reachable s"
    and "handle_sign_tx env s (Some a) (Some out) = (sw, tx1, s1)"
  shows "initialized (sign_session s1) = (sw = SW_OK \<and> p2 a = P2_MORE_CHUNKS)
     \<and> (if sw = SW_OK \<and> p2 a = P2_MORE_CHUNKS then initialized (sign_session s1)
         else sign_session s1 = sign_session_zero)"
  using sign_outcome[OF reachable_inv[OF assms(1)] assms(2)] by auto

theorem sign_tx_session_flag_witness:
  "reachable app_state_zero
   \<and> handle_sign_tx (host_platform UI_RESULT_NONE) app_state_zero
        (Some (sign_apdu 0x00 0x80 path_S1)) (Some []) = (SW_OK, Some [], streaming_S1)
   \<and> p2 (sign_apdu 0x00 0x80 path_S1) = P2_MORE_CHUNKS
   \<and> initialized (sign_session streaming_S1)"
proof -
  have p: "p2 (sign_apdu 0x00 0x80 path_S1) = P2_MORE_CHUNKS"
    by (simp add: sign_apdu_def P2_MORE_CHUNKS_def)
  show ?thesis
    using sign_tx_session_flag[OF startup_zero stream_S1[of UI_RESULT_NONE]]
      startup_zero stream_S1[of UI_RESULT_NONE] p
    by simp
qed

subsection \<open>Approval\<close>

text \<open>
  The key primitives fill the buffers they are given: 64 bytes of signature, 32 bytes
  of public key.
\<close>

definition platform_sizes :: "'h platform \<Rightarrow> bool" where
  "platform_sizes env \<longleftrightarrow>
     (\<forall>p h b. length (snd (crypto_sign_hash env p h b)) = SIGNATURE_LEN)
     \<and> (\<forall>p b. length (snd (crypto_derive_pubkey env p b)) = PUBKEY_LEN)"

lemma host_sizes: "platform_sizes (host_platform u)"
  by (simp add: platform_sizes_def host_platform_def SIGNATURE_LEN_def PUBKEY_LEN_def)

lemma approval_requestD:
  assumes "approval_request env s a = Some d"
  shows "\<not> p1p2_invalid a \<and> p2 a \<noteq> P2_MORE_CHUNKS
     \<and> (\<exists>s1. sign_tx_arm env s a = Inr s1 \<and> sign_tx_prepare s1 = Inr d)"
  using assms
  by (auto simp add: approval_request_def p1p2_invalid_def sign_tx_arm_def
      split: if_splits sum.splits)

lemma approval_requestI:
  assumes "\<not> p1p2_invalid a" "sign_tx_arm env s a = Inr s1" "p2 a \<noteq> P2_MORE_CHUNKS"
    "sign_tx_prepare s1 = Inr d"
  shows "approval_request env s a = Some d"
  using assms
  by (auto simp add: approval_request_def p1p2_invalid_def sign_tx_arm_def
      split: if_splits sum.splits)

lemma approved_response:
  assumes "sign_tx_approved env s out = (sw, tx1, s1)"
  shows "tx1 = Some out
     \<or> (sw = SW_OK \<and> (\<exists>sig. tx1 = Some (out @ take SIGNATURE_LEN sig)
            \<and> (\<exists>p h b. sig = snd (crypto_sign_hash env p h b))))"
  using assms by (auto simp add: sign_tx_approved_def Let_def split: if_splits)

lemma response_grows_only_when_approved:
  assumes run: "handle_sign_tx env s (Some a) (Some out) = (sw, tx1, s1)"
    and grew: "tx1 \<noteq> Some out"
  shows "\<exists>s' d. approval_request env s a = Some d
      \<and> tx_display_show_approval env d = UI_RESULT_APPROVED
      \<and> sign_tx_approved env s' out = (sw, tx1, s1)"
proof (cases "p1p2_invalid a")
  case True
  then show ?thesis using run grew by (auto simp add: handle_invalid)
next
  case valid: False
  show ?thesis
  proof (cases "sign_tx_arm env s a")
    case (Inl e)
    obtain sw' s' where e: "e = (sw', s')" by (cases e)
    then show ?thesis using run grew handle_arm_Inl[OF valid, of env s sw' s' out] Inl by auto
  next
    case (Inr s')
    show ?thesis
    proof (cases "p2 a = P2_MORE_CHUNKS")
      case True
      then show ?thesis using run grew handle_arm_more[OF valid Inr True, of out] by auto
    next
      case last: False
      show ?thesis
      proof (cases "sign_tx_prepare s'")
        case (Inl e)
        obtain sw2 s2 where e: "e = (sw2, s2)" by (cases e)
        then show ?thesis
          using run grew handle_prepare_Inl[OF valid Inr last, of sw2 s2 out] Inl by auto
      next
        case prep: (Inr d)
        show ?thesis
        proof (cases "tx_display_show_approval env d = UI_RESULT_APPROVED")
          case True
          have "approval_request env s a = Some d"
            using valid Inr last prep by (rule approval_requestI)
          moreover have "sign_tx_approved env s' out = (sw, tx1, s1)"
            using run handle_approved[OF valid Inr last prep True, of out] by simp
          ultimately show ?thesis using True by blast
        next
          case False
          then show ?thesis
            using run grew handle_rejected[OF valid Inr last prep False, of out] by auto
        qed
      qed
    qed
  qed
qed

text \<open>
  C1. With key primitives that fill their buffers: whenever a call of
  \<open>handle_sign_tx\<close> gets as far as the approval screen and the screen returns anything
  but approve (reject or none), the call returns \<open>0x6985\<close>, leaves the response as it
  was, and changes nothing of the state but the session, which it zeroizes, so that no
  signature byte is written; and whenever a call extends the response, it returns
  \<open>0x9000\<close>, the screen was shown and returned approve, and the extension is 64 bytes
  long.
\<close>

theorem sign_tx_needs_approval:
  assumes sizes: "platform_sizes env"
  shows "(\<forall>d. approval_request env s a = Some d
              \<and> tx_display_show_approval env d \<noteq> UI_RESULT_APPROVED
            \<longrightarrow> handle_sign_tx env s (Some a) (Some out)
                  = (SW_USER_REJECTED, Some out, reset_sign_session s))
       \<and> (\<forall>sw tx1 s1. handle_sign_tx env s (Some a) (Some out) = (sw, tx1, s1)
              \<and> tx1 \<noteq> Some out
            \<longrightarrow> sw = SW_OK
                \<and> (\<exists>d. approval_request env s a = Some d
                        \<and> tx_display_show_approval env d = UI_RESULT_APPROVED)
                \<and> (\<exists>sig. tx1 = Some (out @ sig) \<and> length sig = SIGNATURE_LEN))"
proof (intro conjI allI impI)
  fix d
  assume h: "approval_request env s a = Some d
      \<and> tx_display_show_approval env d \<noteq> UI_RESULT_APPROVED"
  then obtain s1 where v: "\<not> p1p2_invalid a" "p2 a \<noteq> P2_MORE_CHUNKS"
      and arm: "sign_tx_arm env s a = Inr s1" and prep: "sign_tx_prepare s1 = Inr d"
    using approval_requestD[of env s a d] by blast
  have "reset_sign_session s1 = reset_sign_session s" using arm_Inr'[OF arm] by simp
  then show "handle_sign_tx env s (Some a) (Some out)
      = (SW_USER_REJECTED, Some out, reset_sign_session s)"
    using handle_rejected[OF v(1) arm v(2) prep, of out] h by simp
next
  fix sw tx1 s1
  assume h: "handle_sign_tx env s (Some a) (Some out) = (sw, tx1, s1) \<and> tx1 \<noteq> Some out"
  then obtain s' d where req: "approval_request env s a = Some d"
      and ok: "tx_display_show_approval env d = UI_RESULT_APPROVED"
      and app: "sign_tx_approved env s' out = (sw, tx1, s1)"
    using response_grows_only_when_approved[of env s a out sw tx1 s1] by blast
  from approved_response[OF app] h
  obtain sig where sw: "sw = SW_OK" and tx1: "tx1 = Some (out @ take SIGNATURE_LEN sig)"
      and sig: "\<exists>p h b. sig = snd (crypto_sign_hash env p h b)"
    by blast
  have "length sig = SIGNATURE_LEN" using sig sizes by (auto simp add: platform_sizes_def)
  then have "length (take SIGNATURE_LEN sig) = SIGNATURE_LEN" by simp
  then show "sw = SW_OK"
    and "\<exists>d. approval_request env s a = Some d
            \<and> tx_display_show_approval env d = UI_RESULT_APPROVED"
    and "\<exists>sig. tx1 = Some (out @ sig) \<and> length sig = SIGNATURE_LEN"
    using sw req ok tx1 by blast+
qed

theorem sign_tx_needs_approval_witness:
  "platform_sizes (host_platform UI_RESULT_REJECTED)
   \<and> approval_request (host_platform UI_RESULT_REJECTED) app_state_zero apdu_S1 = Some display_S1
   \<and> tx_display_show_approval (host_platform UI_RESULT_REJECTED) display_S1 \<noteq> UI_RESULT_APPROVED
   \<and> handle_sign_tx (host_platform UI_RESULT_REJECTED) app_state_zero (Some apdu_S1) (Some [])
        = (SW_USER_REJECTED, Some [], reset_sign_session app_state_zero)"
proof -
  have ui: "tx_display_show_approval (host_platform UI_RESULT_REJECTED) display_S1 \<noteq> UI_RESULT_APPROVED"
    by (simp add: host_platform_def)
  show ?thesis
    using sign_tx_needs_approval[OF host_sizes, where s = app_state_zero and a = apdu_S1 and out = "[]"]
      request_S1[of UI_RESULT_REJECTED] ui host_sizes[of UI_RESULT_REJECTED]
    by blast
qed

subsection \<open>A first chunk during a session\<close>

lemma first_reset:
  "sign_tx_first env (reset_sign_session s) a m = sign_tx_first env s a m"
  by (simp add: sign_tx_first_def)

lemma arm_first_status:
  "p1 a = P1_FIRST_CHUNK \<Longrightarrow> sign_tx_arm env s a = Inl (sw, s1) \<Longrightarrow> sw \<noteq> SW_SESSION_ERROR"
  using first_Inl[of env s a "p2 a = P2_MORE_CHUNKS" sw s1] by (simp add: sign_tx_arm_def)

text \<open>
  C2. A first chunk (P1 = \<open>0x00\<close>) is handled the same from every state:
  \<open>handle_sign_tx\<close> zeroizes whatever session exists and then processes the APDU as the
  first chunk of a new session, so the result equals that of the same call on the reset
  state, and the status is never the session error \<open>0x6F03\<close>.
\<close>

theorem first_chunk_restarts_session:
  assumes "p1 a = P1_FIRST_CHUNK"
  shows "handle_sign_tx env s (Some a) (Some out)
           = handle_sign_tx env (reset_sign_session s) (Some a) (Some out)
       \<and> fst (handle_sign_tx env s (Some a) (Some out)) \<noteq> SW_SESSION_ERROR"
proof -
  have same: "handle_sign_tx env s (Some a) (Some out)
           = handle_sign_tx env (reset_sign_session s) (Some a) (Some out)"
    using assms by (simp add: handle_sign_tx_def first_reset Let_def)
  have "fst (handle_sign_tx env s (Some a) (Some out)) \<noteq> SW_SESSION_ERROR"
  proof (cases "p1p2_invalid a")
    case True
    then show ?thesis by (simp add: handle_invalid)
  next
    case valid: False
    show ?thesis
    proof (cases "sign_tx_arm env s a")
      case (Inl e)
      obtain sw s1 where e: "e = (sw, s1)" by (cases e)
      have "sw \<noteq> SW_SESSION_ERROR" using arm_first_status[OF assms] Inl e by simp
      then show ?thesis using handle_arm_Inl[OF valid Inl[unfolded e]] by simp
    next
      case (Inr s1)
      show ?thesis
      proof (cases "p2 a = P2_MORE_CHUNKS")
        case True
        then show ?thesis using handle_arm_more[OF valid Inr] by simp
      next
        case last: False
        show ?thesis
        proof (cases "sign_tx_prepare s1")
          case (Inl e)
          obtain sw s2 where e: "e = (sw, s2)" by (cases e)
          have "sw \<noteq> SW_SESSION_ERROR" using prepare_Inl[of s1 sw s2] Inl e by simp
          then show ?thesis using handle_prepare_Inl[OF valid Inr last Inl[unfolded e]] by simp
        next
          case (Inr d)
          show ?thesis
          proof (cases "tx_display_show_approval env d = UI_RESULT_APPROVED")
            case True
            then show ?thesis
              using handle_approved[OF valid \<open>sign_tx_arm env s a = Inr s1\<close> last Inr]
              by (simp add: approved_status)
          next
            case False
            then show ?thesis
              using handle_rejected[OF valid \<open>sign_tx_arm env s a = Inr s1\<close> last Inr] by simp
          qed
        qed
      qed
    qed
  qed
  with same show ?thesis by simp
qed

theorem first_chunk_restarts_session_witness:
  "p1 (sign_apdu 0x00 0x80 path_S1) = P1_FIRST_CHUNK
   \<and> handle_sign_tx (host_platform UI_RESULT_NONE) streaming_S1
        (Some (sign_apdu 0x00 0x80 path_S1)) (Some [])
      = handle_sign_tx (host_platform UI_RESULT_NONE) (reset_sign_session streaming_S1)
        (Some (sign_apdu 0x00 0x80 path_S1)) (Some [])
   \<and> fst (handle_sign_tx (host_platform UI_RESULT_NONE) streaming_S1
        (Some (sign_apdu 0x00 0x80 path_S1)) (Some [])) \<noteq> SW_SESSION_ERROR"
proof -
  have p: "p1 (sign_apdu 0x00 0x80 path_S1) = P1_FIRST_CHUNK"
    by (simp add: sign_apdu_def P1_FIRST_CHUNK_def)
  show ?thesis
    using first_chunk_restarts_session[OF p, where env = "host_platform UI_RESULT_NONE"
        and s = streaming_S1 and out = "[]"] p
    by blast
qed

text \<open>
  A first chunk that arrives in the streaming state of scenario S1 is answered with
  \<open>0x9000\<close>, and the session it leaves is streaming, not zero.
\<close>

theorem first_chunk_while_streaming_accepted:
  "initialized (sign_session streaming_S1)
   \<and> \<not> last_chunk_received (sign_session streaming_S1)
   \<and> p1 (sign_apdu 0x00 0x80 path_S1) = 0x00
   \<and> handle_sign_tx (host_platform UI_RESULT_NONE) streaming_S1
        (Some (sign_apdu 0x00 0x80 path_S1)) (Some []) = (0x9000, Some [], streaming_S1)
   \<and> (0x9000 :: uint16_t) \<noteq> 0x6F03
   \<and> sign_session streaming_S1 \<noteq> sign_session_zero"
proof -
  have "sign_session streaming_S1 \<noteq> sign_session_zero"
  proof
    assume "sign_session streaming_S1 = sign_session_zero"
    then have "initialized (sign_session streaming_S1) = initialized (sign_session_zero :: nat sign_session_t)"
      by simp
    then show False by (simp add: streaming_S1_def)
  qed
  then show ?thesis
    using restart[of UI_RESULT_NONE]
    by (simp add: streaming_S1_def[THEN arg_cong, of sign_session] sign_apdu_def SW_OK_def)
qed

section \<open>The public key command\<close>

text \<open>
  The components that \<open>crypto_parse_path\<close> decodes from a wire form: the count byte,
  then that many big-endian 32-bit words.
\<close>

definition path_of_wire :: "uint8_t list \<Rightarrow> uint32_t list" where
  "path_of_wire dat = map (\<lambda>i. read_u32_be (drop (1 + i * 4) dat)) [0..<unat (dat ! 0)]"

lemma parse_path_ok:
  assumes n: "n = unat (dat ! 0)" "1 \<le> n" "n \<le> 10" and room: "1 + 4 * n \<le> data_len"
  shows "crypto_parse_path dat data_len p =
     (1 + 4 * n, p\<lparr>length' := dat ! 0,
        path' := map (\<lambda>i. read_u32_be (drop (1 + i * 4) dat)) [0..<n] @ drop n (path' p)\<rparr>)"
proof -
  have nz: "dat ! 0 \<noteq> 0" using n by (auto simp add: unat_eq_0)
  show ?thesis
    using n room nz
    by (simp add: crypto_parse_path_def Let_def MAX_BIP32_PATH_LEN_def mult.commute)
qed

lemma validate_path_ok:
  assumes n: "n = unat b" "1 \<le> n" "n \<le> 10" and len: "length cs = n"
    and hard: "list_all hardened cs"
  shows "crypto_validate_path \<lparr>length' = b, path' = cs @ rest\<rparr>"
proof -
  have nz: "b \<noteq> 0" using n by (auto simp add: unat_eq_0)
  show ?thesis
    using n len hard nz by (simp add: crypto_validate_path_def MAX_BIP32_PATH_LEN_def)
qed

text \<open>
  C10. For every get-public-key APDU whose data starts with a count byte \<open>n\<close> between
  1 and 10 and \<open>n\<close> components that all have their high bit set, and whose Lc is at
  least \<open>1 + 4 * n\<close>, possibly more, \<open>handle_get_public_key\<close> returns \<open>0x9000\<close> and
  appends the 32-byte public key that \<open>crypto_derive_pubkey\<close> produced for the decoded
  path, given that the primitive succeeds; the bytes after the path play no part in the
  result.
\<close>

theorem get_public_key_ignores_trailing_bytes:
  assumes count: "1 \<le> unat (data a ! 0)" "unat (data a ! 0) \<le> 10"
    and room: "1 + 4 * unat (data a ! 0) \<le> unat (lc a)"
    and hard: "list_all hardened (path_of_wire (data a))"
    and key: "crypto_derive_pubkey env (path_of_wire (data a)) (pubkey s) = (True, pk)"
    and size: "length pk = PUBKEY_LEN"
  shows "handle_get_public_key env s (Some a) (Some out) = (SW_OK, Some (out @ pk), s\<lparr>pubkey := pk\<rparr>)"
proof -
  define n where "n = unat (data a ! 0)"
  define cs where "cs = path_of_wire (data a)"
  have lcs: "length cs = n" by (simp add: cs_def path_of_wire_def n_def)
  have pp: "crypto_parse_path (data a) (unat (lc a)) bip32_path_zero =
      (1 + 4 * n, \<lparr>length' = data a ! 0, path' = cs @ drop n (path' bip32_path_zero)\<rparr>)"
    using parse_path_ok[OF n_def count[folded n_def] room[folded n_def], of bip32_path_zero]
    by (simp add: cs_def path_of_wire_def n_def bip32_path_zero_def)
  have vp: "crypto_validate_path \<lparr>length' = data a ! 0, path' = cs @ drop n (path' bip32_path_zero)\<rparr>"
    using n_def count[folded n_def] lcs hard[folded cs_def] by (rule validate_path_ok)
  have pc: "path_components \<lparr>length' = data a ! 0, path' = cs @ drop n (path' bip32_path_zero)\<rparr> = cs"
    by (simp add: path_components_def lcs n_def[symmetric])
  have lc1: "\<not> unat (lc a) < 1" using room by simp
  show ?thesis
    unfolding handle_get_public_key_def
    using lc1 vp key[folded cs_def] size
    by (simp add: pp pc Let_def)
qed

theorem get_public_key_ignores_trailing_bytes_witness:
  "1 \<le> unat (data (pubkey_apdu (path_S1 @ [1, 2, 3])) ! 0)
   \<and> unat (data (pubkey_apdu (path_S1 @ [1, 2, 3])) ! 0) \<le> 10
   \<and> 1 + 4 * unat (data (pubkey_apdu (path_S1 @ [1, 2, 3])) ! 0) < unat (lc (pubkey_apdu (path_S1 @ [1, 2, 3])))
   \<and> list_all hardened (path_of_wire (data (pubkey_apdu (path_S1 @ [1, 2, 3]))))
   \<and> crypto_derive_pubkey (host_platform UI_RESULT_NONE)
        (path_of_wire (data (pubkey_apdu (path_S1 @ [1, 2, 3])))) (pubkey app_state_zero)
        = (True, replicate 32 0x42)
   \<and> length (replicate 32 (0x42 :: uint8_t)) = PUBKEY_LEN
   \<and> handle_get_public_key (host_platform UI_RESULT_NONE) app_state_zero
        (Some (pubkey_apdu (path_S1 @ [1, 2, 3]))) (Some [])
        = (SW_OK, Some (replicate 32 0x42), app_state_zero\<lparr>pubkey := replicate 32 0x42\<rparr>)"
proof -
  let ?a = "pubkey_apdu (path_S1 @ [1, 2, 3])"
  have c: "unat (data ?a ! 0) = 5" by (simp add: pubkey_apdu_def path_S1_def)
  have l: "unat (lc ?a) = 24" by (simp add: pubkey_apdu_def path_S1_def)
  have h: "list_all hardened (path_of_wire (data ?a))" by code_simp
  have k: "crypto_derive_pubkey (host_platform UI_RESULT_NONE) (path_of_wire (data ?a))
        (pubkey app_state_zero) = (True, replicate 32 0x42)"
    by (simp add: host_platform_def)
  have z: "length (replicate 32 (0x42 :: uint8_t)) = PUBKEY_LEN" by (simp add: PUBKEY_LEN_def)
  have c1: "1 \<le> unat (data ?a ! 0)" and c2: "unat (data ?a ! 0) \<le> 10"
    and r: "1 + 4 * unat (data ?a ! 0) \<le> unat (lc ?a)"
    and r': "1 + 4 * unat (data ?a ! 0) < unat (lc ?a)"
    by (simp_all add: c l)
  show ?thesis
    using get_public_key_ignores_trailing_bytes[OF c1 c2 r h k z, of "[]"] c1 c2 r' h k z
    by simp
qed

section \<open>The fee string\<close>

text \<open>
  \<open>tx_parser_compute_fee\<close> is the only writer of the three fee fields, and it sets
  \<open>fee_overflow\<close> to \<open>fee_high != 0\<close>. The fields start at zero, so the relation holds in
  every parser context, in every state the program reaches, and in every record
  \<open>handle_sign_tx\<close> formats.
\<close>

definition fee_consistent :: "tx_parsed_t \<Rightarrow> bool" where
  "fee_consistent p \<longleftrightarrow> fee_overflow p = (fee_high p \<noteq> 0)"

lemma compute_fee_consistent: "fee_consistent (tx_parser_compute_fee p)"
  by (simp add: tx_parser_compute_fee_def fee_consistent_def Let_def)

lemma copy_field_parsed: "parsed (copy_field ctx bs) = parsed ctx"
  by (simp add: copy_field_def Let_def)

lemma pcf_fee_consistent:
  "fee_consistent (parsed ctx) \<Longrightarrow> fee_consistent (parsed (snd (process_complete_field ctx)))"
  by (cases "state ctx")
     (simp_all add: process_complete_field_def next_field_def Let_def compute_fee_consistent,
      simp_all add: fee_consistent_def)

lemma loop_fee_consistent:
  "fee_consistent (parsed ctx) \<Longrightarrow>
     fee_consistent (parsed (fst (tx_parser_consume_loop ctx d c)))"
proof (induction ctx d c rule: loop_cases_induct)
  case (stop ctx d c)
  then show ?case by (simp add: loop_stop)
next
  case (err ctx d c)
  then show ?case by (simp add: loop_err)
next
  case (field_ok ctx d c)
  have "fee_consistent (parsed (snd (process_complete_field (loop_copy ctx (drop c d)))))"
    using field_ok.prems by (intro pcf_fee_consistent) (simp add: loop_copy_def copy_field_parsed)
  then show ?case using field_ok.IH field_ok.hyps by (simp add: loop_field_ok)
next
  case (field_bad ctx d c)
  have "fee_consistent (parsed (snd (process_complete_field (loop_copy ctx (drop c d)))))"
    using field_bad.prems by (intro pcf_fee_consistent) (simp add: loop_copy_def copy_field_parsed)
  then show ?case using field_bad.hyps by (simp add: loop_field_bad)
next
  case (partial ctx d c)
  have "fee_consistent (parsed (loop_copy ctx (drop c d)))"
    using partial.prems by (simp add: loop_copy_def copy_field_parsed)
  then show ?case using partial.IH partial.hyps by (simp add: loop_partial)
qed

lemma consume_fee_consistent:
  "fee_consistent (parsed ctx) \<Longrightarrow> fee_consistent (parsed (fst (tx_parser_consume ctx d)))"
  by (simp add: tx_parser_consume_def loop_fee_consistent)

lemma init_fee_consistent: "fee_consistent (parsed tx_parser_init)"
  by (simp add: tx_parser_init_def tx_parser_ctx_zero_def tx_parsed_zero_def fee_consistent_def)

lemma zero_fee_consistent: "fee_consistent (parsed (parser sign_session_zero))"
  by (simp add: sign_session_zero_def tx_parser_ctx_zero_def tx_parsed_zero_def fee_consistent_def)

lemma absorb_fee_consistent:
  "absorb_tx_bytes env s d n = Inr s1 \<Longrightarrow> fee_consistent (parsed (parser (sign_session s))) \<Longrightarrow>
     fee_consistent (parsed (parser (sign_session s1)))"
  by (auto simp add: absorb_tx_bytes_def Let_def consume_fee_consistent split: if_splits)

lemma first_fee_consistent:
  "sign_tx_first env s a m = Inr s1 \<Longrightarrow> fee_consistent (parsed (parser (sign_session s1)))"
  by (auto simp add: sign_tx_first_def Let_def init_fee_consistent split: if_splits
      dest!: absorb_fee_consistent)

lemma more_fee_consistent:
  "sign_tx_more env s a m = Inr s1 \<Longrightarrow> fee_consistent (parsed (parser (sign_session s))) \<Longrightarrow>
     fee_consistent (parsed (parser (sign_session s1)))"
  by (auto simp add: sign_tx_more_def Let_def split: if_splits dest!: absorb_fee_consistent)

lemma arm_fee_consistent:
  "sign_tx_arm env s a = Inr s1 \<Longrightarrow> fee_consistent (parsed (parser (sign_session s))) \<Longrightarrow>
     fee_consistent (parsed (parser (sign_session s1)))"
  using first_fee_consistent[of env s a "p2 a = P2_MORE_CHUNKS" s1]
    more_fee_consistent[of env s a "p2 a = P2_MORE_CHUNKS" s1]
  by (cases "p1 a = P1_FIRST_CHUNK") (simp_all add: sign_tx_arm_def)

lemma arm_Inl_state:
  "sign_tx_arm env s a = Inl (sw, s1) \<Longrightarrow> s1 = reset_sign_session s \<or> s1 = s"
  using first_Inl[of env s a "p2 a = P2_MORE_CHUNKS" sw s1]
    more_Inl[of env s a "p2 a = P2_MORE_CHUNKS" sw s1]
  by (cases "p1 a = P1_FIRST_CHUNK") (auto simp add: sign_tx_arm_def)

lemma handle_fee_consistent:
  assumes inv: "fee_consistent (parsed (parser (sign_session s)))"
    and run: "handle_sign_tx env s apdu tx = (sw, tx1, s1)"
  shows "fee_consistent (parsed (parser (sign_session s1)))"
proof (cases "\<exists>a out. apdu = Some a \<and> tx = Some out")
  case False
  then have "s1 = s"
    using run by (auto simp add: handle_sign_tx_def split: option.splits)
  then show ?thesis using inv by simp
next
  case True
  then obtain a out where ap: "apdu = Some a" "tx = Some out" by blast
  note run' = run[unfolded ap]
  show ?thesis
  proof (cases "p1p2_invalid a")
    case True
    then show ?thesis using run' by (auto simp add: handle_invalid zero_fee_consistent)
  next
    case valid: False
    show ?thesis
    proof (cases "sign_tx_arm env s a")
      case (Inl e)
      obtain sw' s' where e: "e = (sw', s')" by (cases e)
      have "s1 = s'" using run' handle_arm_Inl[OF valid, of env s sw' s' out] Inl e by simp
      then show ?thesis
        using arm_Inl_state[of env s a sw' s'] Inl e inv by (auto simp add: zero_fee_consistent)
    next
      case (Inr s')
      show ?thesis
      proof (cases "p2 a = P2_MORE_CHUNKS")
        case True
        then have "s1 = s'" using run' handle_arm_more[OF valid Inr True, of out] by simp
        then show ?thesis using arm_fee_consistent[OF Inr inv] by simp
      next
        case last: False
        have "sign_session s1 = sign_session_zero"
        proof (cases "sign_tx_prepare s'")
          case (Inl e)
          obtain sw2 s2 where e: "e = (sw2, s2)" by (cases e)
          have "s1 = s2"
            using run' handle_prepare_Inl[OF valid Inr last, of sw2 s2 out] Inl e by simp
          then show ?thesis using prepare_Inl[of s' sw2 s2] Inl e by simp
        next
          case prep: (Inr d)
          show ?thesis
          proof (cases "tx_display_show_approval env d = UI_RESULT_APPROVED")
            case True
            then have "s1 = snd (snd (sign_tx_approved env s' out))"
              using run' handle_approved[OF valid Inr last prep True, of out] by simp
            then show ?thesis by (simp add: approved_session)
          next
            case False
            then show ?thesis
              using run' handle_rejected[OF valid Inr last prep False, of out] by auto
          qed
        qed
        then show ?thesis by (simp add: zero_fee_consistent)
      qed
    qed
  qed
qed

lemma reachable_fee_consistent:
  "reachable s \<Longrightarrow> fee_consistent (parsed (parser (sign_session s)))"
proof (induction rule: reachable.induct)
  case (startup s)
  then show ?case by (simp add: zero_fee_consistent)
next
  case (sign_tx s env apdu tx sw tx1 s1)
  then show ?case using handle_fee_consistent by blast
next
  case (scratch s s1)
  then show ?case by simp
qed

lemma formatted_recordD:
  assumes "formatted_record env s a = Some p"
  shows "\<exists>s1. sign_tx_arm env s a = Inr s1 \<and> p = tx_parser_get_parsed (parser (sign_session s1))"
  using assms
  by (auto simp add: formatted_record_def sign_tx_arm_def split: if_splits sum.splits)

lemma formatted_record_consistent:
  assumes "reachable s" and "formatted_record env s a = Some p"
  shows "fee_consistent p"
proof -
  obtain s1 where arm: "sign_tx_arm env s a = Inr s1"
      and p: "p = tx_parser_get_parsed (parser (sign_session s1))"
    using formatted_recordD[OF assms(2)] by blast
  show ?thesis
    unfolding p tx_parser_get_parsed_def
    using arm reachable_fee_consistent[OF assms(1)] by (rule arm_fee_consistent)
qed

lemma approval_request_formats:
  assumes "approval_request env s a = Some d"
  shows "\<exists>p. formatted_record env s a = Some p \<and> tx_display_format p = (True, d)
           \<and> \<not> fee_overflow p"
  using assms
  by (auto simp add: approval_request_def formatted_record_def sign_tx_prepare_def Let_def
      prod_eq_iff split: if_splits sum.splits)




text \<open>
  A record with the overflow flag set reaches the formatter too: the handler formats
  before it checks the flag.
\<close>

lemma parse_path_overflow:
  "crypto_parse_path (path_S1 @ transfer_overflow) 103 bip32_path_zero = (21, bip_S1)"
  by code_simp

lemma consumed_overflow: "snd (tx_parser_consume tx_parser_init transfer_overflow) = 82"
  by code_simp

lemma state_overflow:
  "state (fst (tx_parser_consume tx_parser_init transfer_overflow)) = TX_PARSE_STATE_DONE"
  by code_simp

lemma fee_of_overflow:
  "fee_overflow (parsed (fst (tx_parser_consume tx_parser_init transfer_overflow)))
   \<and> fee_high (parsed (fst (tx_parser_consume tx_parser_init transfer_overflow))) = 2
   \<and> fee_low (parsed (fst (tx_parser_consume tx_parser_init transfer_overflow))) = 0"
  by code_simp

lemma formatted_overflow:
  "formatted_record (host_platform u) app_state_zero
       (sign_apdu 0x00 0x00 (path_S1 @ transfer_overflow))
     = Some (parsed (fst (tx_parser_consume tx_parser_init transfer_overflow)))"
proof -
  let ?a = "sign_apdu 0x00 0x00 (path_S1 @ transfer_overflow)"
  have len: "length transfer_overflow = 82" by (simp add: transfer_overflow_def)
  have lc: "unat (lc ?a) = 103" by (simp add: sign_apdu_def len_S1 len)
  have dat: "data ?a = path_S1 @ transfer_overflow" by (simp add: sign_apdu_def)
  have z: "path (sign_session (reset_sign_session app_state_zero)) = bip32_path_zero"
    by (simp add: sign_session_zero_def)
  have ne: "\<not> tx_parser_has_error (fst (tx_parser_consume tx_parser_init transfer_overflow))"
    by (simp add: tx_parser_has_error_def state_overflow)
  have "\<exists>s1. sign_tx_first (host_platform u) app_state_zero ?a False = Inr s1
      \<and> parser (sign_session s1) = fst (tx_parser_consume tx_parser_init transfer_overflow)"
    unfolding sign_tx_first_def lc dat z parse_path_overflow Let_def fst_conv snd_conv
    by (simp add: validate_path_S1 len_S1 len absorb_tx_bytes_def Let_def consumed_overflow ne
        MAX_TX_SIZE_def)
  then obtain s1 where f: "sign_tx_first (host_platform u) app_state_zero ?a False = Inr s1"
    and p: "parser (sign_session s1) = fst (tx_parser_consume tx_parser_init transfer_overflow)"
    by blast
  have p1: "p1 ?a = 0" and p2: "p2 ?a = 0" by (simp_all add: sign_apdu_def)
  show ?thesis
    by (simp add: formatted_record_def p1 p2 P1_FIRST_CHUNK_def P2_LAST_CHUNK_def
        P2_MORE_CHUNKS_def P1_MORE_CHUNK_def f p tx_parser_is_done_def state_overflow
        tx_parser_get_parsed_def)
qed

lemma overflow_record_formatted:
  "\<exists>p. formatted_record (host_platform u) app_state_zero
            (sign_apdu 0x00 0x00 (path_S1 @ transfer_overflow)) = Some p
       \<and> fee_overflow p
       \<and> c_str (snd (format_fee (fee_low p) (fee_high p) (fee_overflow p) (replicate 40 NUL)))
            = ''Overflow''"
proof -
  let ?p = "parsed (fst (tx_parser_consume tx_parser_init transfer_overflow))"
  have ov: "fee_overflow ?p" using fee_of_overflow by blast
  have inv: "fee_overflow ?p = (fee_high ?p \<noteq> 0)" using fee_of_overflow by simp
  have room: "TX_DISPLAY_FEE_MAX_LEN \<le> length (replicate 40 NUL)"
    by (simp add: TX_DISPLAY_FEE_MAX_LEN_def)
  have "c_str (snd (format_fee (fee_low ?p) (fee_high ?p) (fee_overflow ?p) (replicate 40 NUL)))
            = ''Overflow''"
    using format_fee_on_consistent[OF inv room, of "fee_low ?p"] ov by blast
  then show ?thesis using formatted_overflow[of u] ov by blast
qed

text \<open>
  The call site: \<open>tx_display_format\<close> passes the 40-byte \<open>fee\<close> field of a zeroed display
  structure, so the fee string shown at the approval screen is the decimal
  representation of the fee.
\<close>

lemma display_fee_field:
  assumes "tx_display_format p = (True, d)"
  shows "d_fee d = snd (format_fee (fee_low p) (fee_high p) (fee_overflow p)
                          (replicate TX_DISPLAY_FEE_MAX_LEN NUL))"
  using assms
  by (auto simp add: tx_display_format_def Let_def tx_display_zero_def split: if_splits)

lemma shown_fee_exact:
  assumes reach: "reachable s" and req: "approval_request env s a = Some d"
  shows "\<exists>p. formatted_record env s a = Some p
           \<and> c_str (d_fee d) = decimal_string (unat (fee_high p) * 2 ^ 64 + unat (fee_low p))"
proof -
  obtain p where rec: "formatted_record env s a = Some p"
      and fmt: "tx_display_format p = (True, d)" and no: "\<not> fee_overflow p"
    using approval_request_formats[OF req] by blast
  have inv: "fee_overflow p = (fee_high p \<noteq> 0)"
    using formatted_record_consistent[OF reach rec] by (simp add: fee_consistent_def)
  have room: "TX_DISPLAY_FEE_MAX_LEN \<le> length (replicate TX_DISPLAY_FEE_MAX_LEN NUL)" by simp
  have "c_str (d_fee d) = decimal_string (unat (fee_high p) * 2 ^ 64 + unat (fee_low p))"
    unfolding display_fee_field[OF fmt]
    using format_fee_on_consistent[OF inv room, of "fee_low p"] no by blast
  with rec show ?thesis by blast
qed

text \<open>
  The relation between the flag and the high part is needed. The 128-bit loop, which
  runs only when the flag is false and the high part is not zero, adds \<open>hi_rem * 6 + lo\<close>
  in 64 bits: at \<open>fee_low = 2^64 - 1\<close>, \<open>fee_high = 1\<close> it leaves the string
  18446744073709551615 for the value \<open>2^65 - 1 = 36893488147419103231\<close>. No record of
  the parser has these fields.
\<close>

lemma format_fee_wraps_at_high_part:
  "fst (format_fee 0xFFFFFFFFFFFFFFFF 1 False (replicate 40 NUL)) = 20
   \<and> c_str (snd (format_fee 0xFFFFFFFFFFFFFFFF 1 False (replicate 40 NUL)))
        = ''18446744073709551615''
   \<and> decimal_value ''18446744073709551615'' = 2^64 - 1
   \<and> unat (1 :: uint64_t) * 2^64 + unat (0xFFFFFFFFFFFFFFFF :: uint64_t) = 36893488147419103231"
proof -
  have a: "fst (format_fee 0xFFFFFFFFFFFFFFFF 1 False (replicate 40 NUL)) = 20"
    by code_simp
  have b: "c_str (snd (format_fee 0xFFFFFFFFFFFFFFFF 1 False (replicate 40 NUL)))
        = ''18446744073709551615''"
    by code_simp
  have c: "decimal_value ''18446744073709551615'' = 2^64 - 1"
    by (simp add: decimal_value_def)
  have d: "unat (1 :: uint64_t) * 2^64 + unat (0xFFFFFFFFFFFFFFFF :: uint64_t) = 36893488147419103231"
    by simp
  show ?thesis using a b c d by blast
qed

end
